theory Spec2Isabelle
  imports Main "HOL-Library.AList"
begin

section \<open>Python strings\<close>

text \<open>
  A Python \<^verbatim>\<open>str\<close> is a sequence of Unicode code points. The byte-order mark
  U+FEFF and the non-ASCII white space that \<^verbatim>\<open>str.strip()\<close> removes do not
  fit the 8-bit characters of HOL, so a string is modelled as the list of its code points.
  \<open>U ''abc''\<close> is the code-point list of an ASCII literal.
\<close>

type_synonym ustring = "nat list"

abbreviation (input) U :: "string \<Rightarrow> ustring" where
  "U s \<equiv> map of_char s"

abbreviation (input) BOM :: nat where
  "BOM \<equiv> 0xFEFF"

abbreviation (input) DQUOTE :: nat where
  "DQUOTE \<equiv> 0x22"

abbreviation (input) SQUOTE :: nat where
  "SQUOTE \<equiv> 0x27"

text \<open>
  \<^verbatim>\<open>str.isspace\<close> for one code point: the table \<^verbatim>\<open>_PyUnicode_IsWhitespace\<close> of CPython
  (bidirectional type WS, B or S, or category Zs).
\<close>

definition py_isspace :: "nat \<Rightarrow> bool" where
  "py_isspace c =
     (c \<in> {0x09, 0x0A, 0x0B, 0x0C, 0x0D, 0x1C, 0x1D, 0x1E, 0x1F, 0x20, 0x85, 0xA0, 0x1680}
      \<or> (0x2000 \<le> c \<and> c \<le> 0x200A)
      \<or> c \<in> {0x2028, 0x2029, 0x202F, 0x205F, 0x3000})"

text \<open>Removing from both ends every character that satisfies \<open>P\<close>.\<close>

definition strip_by :: "(nat \<Rightarrow> bool) \<Rightarrow> ustring \<Rightarrow> ustring" where
  "strip_by P s = rev (dropWhile P (rev (dropWhile P s)))"

text \<open>\<^verbatim>\<open>s.strip()\<close>, \<^verbatim>\<open>s.strip(chars)\<close> and \<^verbatim>\<open>s.lstrip(chars)\<close>.\<close>

definition py_strip :: "ustring \<Rightarrow> ustring" where
  "py_strip s = strip_by py_isspace s"

definition py_strip_chars :: "ustring \<Rightarrow> ustring \<Rightarrow> ustring" where
  "py_strip_chars chars s = strip_by (\<lambda>c. c \<in> set chars) s"

definition py_lstrip_chars :: "ustring \<Rightarrow> ustring \<Rightarrow> ustring" where
  "py_lstrip_chars chars s = dropWhile (\<lambda>c. c \<in> set chars) s"

text \<open>\<^verbatim>\<open>s.replace(c, r)\<close> where the pattern \<open>c\<close> is a single character.\<close>

definition py_replace1 :: "nat \<Rightarrow> ustring \<Rightarrow> ustring \<Rightarrow> ustring" where
  "py_replace1 c r s = concat (map (\<lambda>x. if x = c then r else [x]) s)"

section \<open>Field-name cleaning\<close>

text \<open>
  \<^verbatim>\<open>clean_field_name\<close> is the same in \<^verbatim>\<open>script.py\<close>, \<^verbatim>\<open>validate_results.py\<close>,
  \<^verbatim>\<open>analyze_migration_coverage.py\<close>, \<^verbatim>\<open>show_updated_collections.py\<close> and
  \<^verbatim>\<open>show_collections_urls.py\<close>:
  \<^verbatim>\<open>
  if not field_name:
      return ""
  cleaned = field_name.replace(BOM, '').strip().strip('"').strip("'")
  return cleaned
  \<close>
  where \<^verbatim>\<open>BOM\<close> stands for the one-character string U+FEFF. The argument is a key of a \<^verbatim>\<open>csv.DictReader\<close> row, which is a string or \<^verbatim>\<open>None\<close>
  (the rest key of a row longer than the header).
\<close>

fun clean_field_name :: "ustring option \<Rightarrow> ustring" where
  "clean_field_name None = []"
| "clean_field_name (Some field_name) =
     (if field_name = [] then []
      else py_strip_chars [SQUOTE] (py_strip_chars [DQUOTE] (py_strip (py_replace1 BOM [] field_name))))"

text \<open>
  The specification's wording of the same step, kept apart from the code: the byte-order
  mark is removed, white space is trimmed, and one layer of surrounding quotes is taken off.
\<close>

definition strip_one_quote_layer :: "ustring \<Rightarrow> ustring" where
  "strip_one_quote_layer s =
     (if 2 \<le> length s \<and> hd s = last s \<and> (hd s = DQUOTE \<or> hd s = SQUOTE)
      then butlast (tl s) else s)"

definition spec_clean_field_name :: "ustring \<Rightarrow> ustring" where
  "spec_clean_field_name s = strip_one_quote_layer (py_strip (py_replace1 BOM [] s))"

text \<open>
  What it means that \<open>t\<close> is \<open>s\<close> without the characters of a kind \<open>P\<close> at its two ends:
  \<open>s\<close> is \<open>t\<close> between two runs of such characters, and \<open>t\<close> has none left at
  either end. This says nothing of how \<open>t\<close> is computed.
\<close>

definition stripped_to :: "(nat \<Rightarrow> bool) \<Rightarrow> ustring \<Rightarrow> ustring \<Rightarrow> bool" where
  "stripped_to P s t =
     (\<exists>pre suf. s = pre @ t @ suf \<and> list_all P pre \<and> list_all P suf
        \<and> (t = [] \<or> (\<not> P (hd t) \<and> \<not> P (last t))))"

section \<open>HTML synthesis\<close>

text \<open>
  \<^verbatim>\<open>html.escape(s)\<close> of the standard library, with its default \<^verbatim>\<open>quote=True\<close>: five
  replacements, one after the other, the ampersand first.
\<close>

definition html_escape :: "ustring \<Rightarrow> ustring" where
  "html_escape s =
     (let s = py_replace1 0x26 (U ''&amp;'') s;
          s = py_replace1 0x3C (U ''&lt;'') s;
          s = py_replace1 0x3E (U ''&gt;'') s;
          s = py_replace1 DQUOTE (U ''&quot;'') s;
          s = py_replace1 SQUOTE (U ''&#x27;'') s
      in s)"

text \<open>What escaping means character by character: the entity that stands for each special character.\<close>

definition escape_char :: "nat \<Rightarrow> ustring" where
  "escape_char c =
     (if c = 0x26 then U ''&amp;''
      else if c = 0x3C then U ''&lt;''
      else if c = 0x3E then U ''&gt;''
      else if c = DQUOTE then U ''&quot;''
      else if c = SQUOTE then U ''&#x27;''
      else [c])"

text \<open>
  \<^verbatim>\<open>create_html_content\<close> of \<^verbatim>\<open>script.py\<close>: a list of parts that starts with the opening
  tag, grows by one part for every non-empty argument and ends with the closing tag; the
  result is the parts joined.
\<close>

definition create_html_content :: "ustring \<Rightarrow> ustring \<Rightarrow> ustring \<Rightarrow> ustring \<Rightarrow> ustring" where
  "create_html_content title subheading description content_under_listing =
     (let html_parts = [U ''<div class='' @ [0x22] @ U ''collection-description'' @ [0x22] @ U ''>''];
          html_parts = (if title \<noteq> []
                        then html_parts @ [U ''<h1>'' @ html_escape title @ U ''</h1>'']
                        else html_parts);
          html_parts = (if subheading \<noteq> []
                        then html_parts @ [U ''<h2>'' @ html_escape subheading @ U ''</h2>'']
                        else html_parts);
          html_parts = (if description \<noteq> []
                        then html_parts @ [U ''<p>'' @ html_escape description @ U ''</p>'']
                        else html_parts);
          html_parts = (if content_under_listing \<noteq> []
                        then html_parts @ [U ''<div class='' @ [0x22] @ U ''content-under-listing'' @ [0x22]
                                            @ U ''>'' @ html_escape content_under_listing @ U ''</div>'']
                        else html_parts);
          html_parts = html_parts @ [U ''</div>'']
      in concat html_parts)"

section \<open>URL parsing\<close>

text \<open>
  \<^verbatim>\<open>urllib.parse.urlparse\<close> is the standard library's; the model follows the text of
  CPython 3.11 (\<^verbatim>\<open>urlsplit\<close>, \<^verbatim>\<open>_splitnetloc\<close>, \<^verbatim>\<open>_checknetloc\<close>, \<^verbatim>\<open>urlparse\<close>,
  \<^verbatim>\<open>_splitparams\<close>). Two things it calls are not string manipulation and are taken as
  parameters: Unicode NFKC normalisation, and the validity of a bracketed host
  (\<^verbatim>\<open>_check_bracketed_host\<close>, through \<^verbatim>\<open>ipaddress.ip_address\<close>). Neither is consulted for a
  URL whose network location is ASCII and has no brackets.
\<close>

datatype py_error = IOError | ValueError | TypeError | AttributeError

record pylib =
  nfkc :: "ustring \<Rightarrow> ustring"
  bracketed_host_ok :: "ustring \<Rightarrow> bool"

record parse_result =
  scheme :: ustring
  netloc :: ustring
  path :: ustring
  params :: ustring
  query :: ustring
  fragment :: ustring

abbreviation (input) SLASH :: nat where "SLASH \<equiv> 0x2F"
abbreviation (input) COLON :: nat where "COLON \<equiv> 0x3A"
abbreviation (input) SEMICOLON :: nat where "SEMICOLON \<equiv> 0x3B"
abbreviation (input) QMARK :: nat where "QMARK \<equiv> 0x3F"
abbreviation (input) HASH :: nat where "HASH \<equiv> 0x23"
abbreviation (input) ATSIGN :: nat where "ATSIGN \<equiv> 0x40"
abbreviation (input) LBRACKET :: nat where "LBRACKET \<equiv> 0x5B"
abbreviation (input) RBRACKET :: nat where "RBRACKET \<equiv> 0x5D"

text \<open>\<^verbatim>\<open>s[:i]\<close> and \<^verbatim>\<open>s[i+1:]\<close> for \<^verbatim>\<open>i = s.find(c)\<close>, when \<open>c\<close> occurs in \<open>s\<close>.\<close>

definition before_first :: "nat \<Rightarrow> ustring \<Rightarrow> ustring" where
  "before_first c s = takeWhile (\<lambda>x. x \<noteq> c) s"

definition after_first :: "nat \<Rightarrow> ustring \<Rightarrow> ustring" where
  "after_first c s = tl (dropWhile (\<lambda>x. x \<noteq> c) s)"

text \<open>\<^verbatim>\<open>_UNSAFE_URL_BYTES_TO_REMOVE\<close>: tab, carriage return, newline.\<close>

definition remove_unsafe :: "ustring \<Rightarrow> ustring" where
  "remove_unsafe url = py_replace1 0x0A [] (py_replace1 0x0D [] (py_replace1 0x09 [] url))"

definition is_ascii_alpha :: "nat \<Rightarrow> bool" where
  "is_ascii_alpha c = ((0x41 \<le> c \<and> c \<le> 0x5A) \<or> (0x61 \<le> c \<and> c \<le> 0x7A))"

text \<open>\<^verbatim>\<open>scheme_chars\<close>: ASCII letters, digits, and \<^verbatim>\<open>+-.\<close>\<close>

definition is_scheme_char :: "nat \<Rightarrow> bool" where
  "is_scheme_char c =
     ((0x61 \<le> c \<and> c \<le> 0x7A) \<or> (0x41 \<le> c \<and> c \<le> 0x5A) \<or> (0x30 \<le> c \<and> c \<le> 0x39)
      \<or> c = 0x2B \<or> c = 0x2D \<or> c = 0x2E)"

text \<open>\<^verbatim>\<open>str.lower\<close> on a string of scheme characters.\<close>

definition ascii_lower :: "nat \<Rightarrow> nat" where
  "ascii_lower c = (if 0x41 \<le> c \<and> c \<le> 0x5A then c + 0x20 else c)"

text \<open>
  The scheme: \<^verbatim>\<open>i = url.find(':')\<close>; when \<^verbatim>\<open>i > 0\<close>, the first character is an ASCII letter
  and all of \<^verbatim>\<open>url[:i]\<close> are scheme characters, the scheme is \<^verbatim>\<open>url[:i].lower()\<close> and the
  URL goes on after the colon. The result is the scheme and the rest.
\<close>

definition split_scheme :: "ustring \<Rightarrow> ustring \<times> ustring" where
  "split_scheme url =
     (if COLON \<in> set url \<and> before_first COLON url \<noteq> [] \<and> is_ascii_alpha (hd url)
         \<and> list_all is_scheme_char (before_first COLON url)
      then (map ascii_lower (before_first COLON url), after_first COLON url)
      else ([], url))"

text \<open>\<^verbatim>\<open>_splitnetloc(url, 2)\<close>: from position 2 up to the first of \<^verbatim>\<open>/?#\<close>, and the rest.\<close>

definition netloc_delim :: "nat \<Rightarrow> bool" where
  "netloc_delim c = (c = SLASH \<or> c = QMARK \<or> c = HASH)"

definition splitnetloc2 :: "ustring \<Rightarrow> ustring \<times> ustring" where
  "splitnetloc2 url =
     (takeWhile (\<lambda>c. \<not> netloc_delim c) (drop 2 url), dropWhile (\<lambda>c. \<not> netloc_delim c) (drop 2 url))"

text \<open>The bracket checks of \<^verbatim>\<open>urlsplit\<close>; \<open>True\<close> when it raises \<^verbatim>\<open>ValueError\<close>.\<close>

definition bracket_error :: "pylib \<Rightarrow> ustring \<Rightarrow> bool" where
  "bracket_error lib nl =
     (if (LBRACKET \<in> set nl \<and> RBRACKET \<notin> set nl) \<or> (RBRACKET \<in> set nl \<and> LBRACKET \<notin> set nl)
      then True
      else if LBRACKET \<in> set nl \<and> RBRACKET \<in> set nl
      then \<not> bracketed_host_ok lib (before_first RBRACKET (after_first LBRACKET nl))
      else False)"

text \<open>\<^verbatim>\<open>_checknetloc\<close>; \<open>True\<close> when it raises \<^verbatim>\<open>ValueError\<close>.\<close>

definition checknetloc_error :: "pylib \<Rightarrow> ustring \<Rightarrow> bool" where
  "checknetloc_error lib nl =
     (if nl = [] \<or> list_all (\<lambda>c. c < 0x80) nl then False
      else let n = py_replace1 QMARK [] (py_replace1 HASH [] (py_replace1 COLON []
                     (py_replace1 ATSIGN [] nl)));
               netloc2 = nfkc lib n
           in if n = netloc2 then False
              else list_ex (\<lambda>c. c \<in> set netloc2) [SLASH, QMARK, HASH, ATSIGN, COLON])"

text \<open>
  The network location of \<^verbatim>\<open>urlsplit\<close>: present when the URL (after the scheme) starts
  with two slashes; the bracket checks are made there.
\<close>

definition split_netloc :: "pylib \<Rightarrow> ustring \<Rightarrow> py_error + (ustring \<times> ustring)" where
  "split_netloc lib url =
     (if take 2 url = [SLASH, SLASH]
      then (let (netloc, rest) = splitnetloc2 url
            in if bracket_error lib netloc then Inl ValueError else Inr (netloc, rest))
      else Inr ([], url))"

text \<open>
  \<^verbatim>\<open>urlsplit(url)\<close> with the default empty scheme and fragments allowed:
  \<^verbatim>\<open>
  url = url.lstrip(_WHATWG_C0_CONTROL_OR_SPACE)      # the code points 0 to 32
  for b in _UNSAFE_URL_BYTES_TO_REMOVE:
      url = url.replace(b, "")
  netloc = query = fragment = ''
  i = url.find(':')
  if i > 0 and url[0].isascii() and url[0].isalpha():
      for c in url[:i]:
          if c not in scheme_chars:
              break
      else:
          scheme, url = url[:i].lower(), url[i+1:]
  if url[:2] == '//':
      netloc, url = _splitnetloc(url, 2)
      ... bracket checks, raising ValueError ...
  if allow_fragments and '#' in url:
      url, fragment = url.split('#', 1)
  if '?' in url:
      url, query = url.split('?', 1)
  _checknetloc(netloc)
  \<close>
  The five fields are returned in a \<open>parse_result\<close> whose \<open>params\<close> is still empty.
\<close>

definition urlsplit :: "pylib \<Rightarrow> ustring \<Rightarrow> py_error + parse_result" where
  "urlsplit lib url0 =
     (let url1 = py_lstrip_chars [0 ..< 0x21] url0;
          url2 = remove_unsafe url1;
          (sch, url3) = split_scheme url2
      in case split_netloc lib url3 of
           Inl e \<Rightarrow> Inl e
         | Inr (nl, url4) \<Rightarrow>
             (let (url5, frag) = (if HASH \<in> set url4
                                  then (before_first HASH url4, after_first HASH url4)
                                  else (url4, []));
                  (url6, qry) = (if QMARK \<in> set url5
                                 then (before_first QMARK url5, after_first QMARK url5)
                                 else (url5, []))
              in if checknetloc_error lib nl then Inl ValueError
                 else Inr \<lparr>scheme = sch, netloc = nl, path = url6, params = [],
                           query = qry, fragment = frag\<rparr>))"

text \<open>\<^verbatim>\<open>uses_params\<close>, the schemes whose last path segment may carry parameters.\<close>

definition uses_params :: "ustring list" where
  "uses_params = [ [], U ''ftp'', U ''hdl'', U ''prospero'', U ''http'', U ''imap'',
     U ''https'', U ''shttp'', U ''rtsp'', U ''rtsps'', U ''rtspu'', U ''sip'',
     U ''sips'', U ''mms'', U ''sftp'', U ''tel'']"

text \<open>
  \<^verbatim>\<open>_splitparams(url)\<close>, called when \<^verbatim>\<open>';' in url\<close>: the first semicolon after the last
  slash splits the path from the parameters.
  \<^verbatim>\<open>
  if '/' in url:
      i = url.find(';', url.rfind('/'))
      if i < 0:
          return url, ''
  else:
      i = url.find(';')
  return url[:i], url[i+1:]
  \<close>
  \<open>last_segment url\<close> is what follows the last slash, \<open>upto_last_slash url\<close> what
  comes before it, with the slash.
\<close>

definition last_segment :: "ustring \<Rightarrow> ustring" where
  "last_segment url = rev (takeWhile (\<lambda>c. c \<noteq> SLASH) (rev url))"

definition upto_last_slash :: "ustring \<Rightarrow> ustring" where
  "upto_last_slash url = rev (dropWhile (\<lambda>c. c \<noteq> SLASH) (rev url))"

definition splitparams :: "ustring \<Rightarrow> ustring \<times> ustring" where
  "splitparams url =
     (if SLASH \<in> set url
      then (if SEMICOLON \<in> set (last_segment url)
            then (upto_last_slash url @ before_first SEMICOLON (last_segment url),
                  after_first SEMICOLON (last_segment url))
            else (url, []))
      else (before_first SEMICOLON url, after_first SEMICOLON url))"

definition urlparse :: "pylib \<Rightarrow> ustring \<Rightarrow> py_error + parse_result" where
  "urlparse lib url =
     (case urlsplit lib url of
        Inl e \<Rightarrow> Inl e
      | Inr r \<Rightarrow>
          (if scheme r \<in> set uses_params \<and> SEMICOLON \<in> set (path r)
           then (let (url, prm) = splitparams (path r) in Inr (r\<lparr>path := url, params := prm\<rparr>))
           else Inr (r\<lparr>params := []\<rparr>)))"

section \<open>Handle extraction\<close>

text \<open>\<^verbatim>\<open>s.split(c)\<close> for a one-character separator; the result is never empty.\<close>

fun py_split1 :: "nat \<Rightarrow> ustring \<Rightarrow> ustring list" where
  "py_split1 c [] = [ [] ]"
| "py_split1 c (x # xs) =
     (if x = c then [] # py_split1 c xs
      else (x # hd (py_split1 c xs)) # tl (py_split1 c xs))"

text \<open>
  \<^verbatim>\<open>re.sub(r'\.html$', '', handle)\<close>. Without the MULTILINE flag, \<^verbatim>\<open>$\<close> matches at the end
  of the string and also just before a newline that ends the string, so the pattern
  matches a final \<^verbatim>\<open>.html\<close> and a \<^verbatim>\<open>.html\<close> followed by one last newline.
\<close>

definition re_sub_html :: "ustring \<Rightarrow> ustring" where
  "re_sub_html handle =
     (if drop (length handle - 5) handle = U ''.html''
      then take (length handle - 5) handle
      else if drop (length handle - 6) handle = U ''.html'' @ [0x0A]
      then take (length handle - 6) handle @ [0x0A]
      else handle)"

text \<open>
  \<^verbatim>\<open>extract_handle_from_url\<close>, the same in \<^verbatim>\<open>script.py\<close>, \<^verbatim>\<open>validate_results.py\<close> and
  \<^verbatim>\<open>analyze_migration_coverage.py\<close>:
  \<^verbatim>\<open>
  if not url:
      return None
  try:
      parsed = urlparse(url)
      path = parsed.path.strip('/')
      segments = [seg for seg in path.split('/') if seg]
      if not segments:
          return None
      handle = segments[-1]
      handle = re.sub(r'\.html$', '', handle)
      return handle
  except Exception as e:
      logger.warning(...)
      return None
  \<close>
\<close>

definition extract_handle_from_url :: "pylib \<Rightarrow> ustring \<Rightarrow> ustring option" where
  "extract_handle_from_url lib url =
     (if url = [] then None
      else case urlparse lib url of
             Inl e \<Rightarrow> None
           | Inr parsed \<Rightarrow>
               (let stripped = py_strip_chars [SLASH] (path parsed);
                    segments = filter (\<lambda>seg. seg \<noteq> []) (py_split1 SLASH stripped)
                in if segments = [] then None
                   else Some (re_sub_html (last segments))))"

text \<open>
  The specification's wording of the extraction, kept apart from the code: the non-empty segments of
  a path, and the removal of a final \<^verbatim>\<open>.html\<close>.
\<close>

definition nonempty_segments :: "ustring \<Rightarrow> ustring list" where
  "nonempty_segments p = filter (\<lambda>seg. seg \<noteq> []) (py_split1 SLASH p)"

definition remove_html_suffix :: "ustring \<Rightarrow> ustring" where
  "remove_html_suffix s =
     (if 5 \<le> length s \<and> drop (length s - 5) s = U ''.html'' then take (length s - 5) s else s)"

text \<open>
  Two views of the parser's result used to state what the extractor depends on: the scheme
  and path that \<^verbatim>\<open>urlsplit\<close> finds, and the path that \<^verbatim>\<open>urlparse\<close> returns; \<open>None\<close> when
  the parser raises.
\<close>

definition split_view :: "pylib \<Rightarrow> ustring \<Rightarrow> (ustring \<times> ustring) option" where
  "split_view lib url = (case urlsplit lib url of Inl e \<Rightarrow> None | Inr r \<Rightarrow> Some (scheme r, path r))"

definition parsed_path :: "pylib \<Rightarrow> ustring \<Rightarrow> ustring option" where
  "parsed_path lib url = (case urlparse lib url of Inl e \<Rightarrow> None | Inr r \<Rightarrow> Some (path r))"

text \<open>The part of a URL before its first \<^verbatim>\<open>#\<close> or \<^verbatim>\<open>?\<close>.\<close>

definition path_part :: "ustring \<Rightarrow> ustring" where
  "path_part u = takeWhile (\<lambda>c. c \<noteq> HASH \<and> c \<noteq> QMARK) u"

section \<open>Tabular files and dictionaries\<close>

text \<open>
  A CSV file is taken at the level of \<^verbatim>\<open>csv.reader\<close> and \<^verbatim>\<open>csv.writer\<close>: the list of its
  records, each a list of cells, the header first, with the cells as the file has them
  (as \<^verbatim>\<open>csv\<close> reads them from a file opened with \<^verbatim>\<open>newline=''\<close>, and as it writes them to
  one). Opening, decoding or parsing the file may fail, so what a loader gets is an error
  or the records.

  A Python \<^verbatim>\<open>dict\<close> is an association list in insertion order: \<open>AList.update k v d\<close>
  replaces the value of an existing key in place and appends a new key at the end, as
  \<^verbatim>\<open>d[k] = v\<close> does; \<open>map_of d k\<close> is the lookup.
\<close>

type_synonym csv_rows = "ustring list list"

type_synonym row = "(ustring \<times> ustring) list"

text \<open>
  Every loader opens its file with \<^verbatim>\<open>open(filename, 'r', encoding='utf-8')\<close>, without
  \<^verbatim>\<open>newline=''\<close>: the text layer of Python then turns every carriage return followed by
  a line feed, and every other carriage return, into one line feed before \<^verbatim>\<open>csv\<close> reads
  the text. Outside a quoted field a line end of any kind ends the record, so the records
  are the same and the translation shows in the cells only, each on its own.
\<close>

fun universal_newlines :: "ustring \<Rightarrow> ustring" where
  "universal_newlines [] = []"
| "universal_newlines [c] = [if c = 0x0D then 0x0A else c]"
| "universal_newlines (c # d # s) =
     (if c = 0x0D \<and> d = 0x0A then 0x0A # universal_newlines s
      else if c = 0x0D then 0x0A # universal_newlines (d # s)
      else c # universal_newlines (d # s))"

definition open_text :: "csv_rows \<Rightarrow> csv_rows" where
  "open_text recs = map (map universal_newlines) recs"

definition dict_get :: "('k \<times> 'v) list \<Rightarrow> 'k \<Rightarrow> 'v \<Rightarrow> 'v" where
  "dict_get d k dflt = (case map_of d k of None \<Rightarrow> dflt | Some v \<Rightarrow> v)"

text \<open>\<^verbatim>\<open>dict(pairs)\<close>: the pairs are inserted one after the other.\<close>

definition dict_of_pairs :: "('k \<times> 'v) list \<Rightarrow> ('k \<times> 'v) list" where
  "dict_of_pairs kvs = foldl (\<lambda>d (k, v). AList.update k v d) [] kvs"

text \<open>
  A row of \<^verbatim>\<open>csv.DictReader\<close>: the cells under the field names; a row shorter than the
  header has \<^verbatim>\<open>None\<close> under the missing names, a longer row has the list of its extra
  cells under the key \<^verbatim>\<open>None\<close>.
  \<^verbatim>\<open>
  d = dict(zip(self.fieldnames, row))
  lf = len(self.fieldnames)
  lr = len(row)
  if lf < lr:
      d[self.restkey] = row[lf:]
  elif lf > lr:
      for key in self.fieldnames[lr:]:
          d[key] = self.restval
  \<close>
\<close>

datatype cell = Str ustring | NoneCell | RestCells "ustring list"

type_synonym reader_row = "(ustring option \<times> cell) list"

definition dictreader_row :: "ustring list \<Rightarrow> ustring list \<Rightarrow> reader_row" where
  "dictreader_row fieldnames r =
     (let d = dict_of_pairs (zip (map Some fieldnames) (map Str r));
          lf = length fieldnames;
          lr = length r
      in if lf < lr then AList.update None (RestCells (drop lf r)) d
         else if lf > lr
         then foldl (\<lambda>d key. AList.update (Some key) NoneCell d) d (drop lr fieldnames)
         else d)"

text \<open>
  Iterating a \<^verbatim>\<open>DictReader\<close>: the first record is the header, blank records (\<^verbatim>\<open>[]\<close>) are
  skipped. A file without any record has no field names and no rows.
\<close>

definition reader_fieldnames :: "csv_rows \<Rightarrow> ustring list option" where
  "reader_fieldnames recs = (case recs of [] \<Rightarrow> None | fieldnames # rest \<Rightarrow> Some fieldnames)"

definition reader_rows :: "csv_rows \<Rightarrow> reader_row list" where
  "reader_rows recs =
     (case recs of
        [] \<Rightarrow> []
      | fieldnames # rest \<Rightarrow> map (dictreader_row fieldnames) (filter (\<lambda>r. r \<noteq> []) rest))"

text \<open>
  The cleaning loop that every loader runs on a row:
  \<^verbatim>\<open>
  cleaned_row = {}
  for key, value in row.items():
      clean_key = self.clean_field_name(key)
      cleaned_row[clean_key] = value.strip() if value else ""
  \<close>
  A non-empty list of extra cells has no \<^verbatim>\<open>strip\<close>: \<^verbatim>\<open>AttributeError\<close>.
\<close>

fun clean_value :: "cell \<Rightarrow> py_error + ustring" where
  "clean_value (Str s) = Inr (if s \<noteq> [] then py_strip s else [])"
| "clean_value NoneCell = Inr []"
| "clean_value (RestCells l) = (if l \<noteq> [] then Inl AttributeError else Inr [])"

fun clean_row_loop :: "reader_row \<Rightarrow> row \<Rightarrow> py_error + row" where
  "clean_row_loop [] cleaned_row = Inr cleaned_row"
| "clean_row_loop ((key, v) # items) cleaned_row =
     (case clean_value v of
        Inl e \<Rightarrow> Inl e
      | Inr s \<Rightarrow> clean_row_loop items (AList.update (clean_field_name key) s cleaned_row))"

definition clean_row :: "reader_row \<Rightarrow> py_error + row" where
  "clean_row r = clean_row_loop r []"

section \<open>The migration script\<close>

text \<open>
  The dictionaries of the destination records are objects that the merger mutates, so they
  live in a store: a list of dictionaries, an address being an index. A list of records is
  a list of addresses.
\<close>

type_synonym addr = nat

type_synonym store = "row list"

definition alloc :: "store \<Rightarrow> row \<Rightarrow> store \<times> addr" where
  "alloc h r = (h @ [r], length h)"

text \<open>\<^verbatim>\<open>obj[k] = v\<close> on the dictionary at address \<open>a\<close>.\<close>

definition dict_set :: "store \<Rightarrow> addr \<Rightarrow> ustring \<Rightarrow> ustring \<Rightarrow> store" where
  "dict_set h a k v = h[a := AList.update k v (h ! a)]"

definition METAFIELD :: ustring where
  "METAFIELD = U ''Metafield: custom.collection_subheading [single_line_text_field]''"

record content =
  title :: ustring
  subheading :: ustring
  description :: ustring
  content_under_listing :: ustring

record stats =
  plp_entries_loaded :: nat
  shopify_categories_loaded :: nat
  categories_updated :: nat
  no_match_found :: nat

text \<open>
  The object \<^verbatim>\<open>self\<close> of \<^verbatim>\<open>PLPMigrationScript\<close>, with the store. The entries of
  \<^verbatim>\<open>plp_content\<close> are never mutated and are kept as values.
\<close>

record script =
  heap :: store
  plp_content :: "row list"
  shopify_categories :: "addr list"
  updated_categories :: "addr list"
  content_map :: "(ustring \<times> content) list"
  stats :: stats

text \<open>
  The loop of \<^verbatim>\<open>load_plp_content\<close>:
  \<^verbatim>\<open>
  for row in reader:
      cleaned_row = ... the cleaning loop ...
      plp_entries.append(cleaned_row)
      url = cleaned_row.get('URL', '')
      handle = self.extract_handle_from_url(url)
      if handle:
          self.content_map[handle] = {
              'title': cleaned_row.get('Title', ''),
              'subheading': cleaned_row.get('Sub-heading', ''),
              'description': cleaned_row.get('Description', ''),
              'content_under_listing': cleaned_row.get('Content under product listing', '')
          }
  \<close>
\<close>

definition content_of_row :: "row \<Rightarrow> content" where
  "content_of_row cleaned_row =
     \<lparr>title = dict_get cleaned_row (U ''Title'') [],
      subheading = dict_get cleaned_row (U ''Sub-heading'') [],
      description = dict_get cleaned_row (U ''Description'') [],
      content_under_listing = dict_get cleaned_row (U ''Content under product listing'') []\<rparr>"

fun plp_loop :: "pylib \<Rightarrow> reader_row list \<Rightarrow> row list \<times> (ustring \<times> content) list
    \<Rightarrow> py_error + (row list \<times> (ustring \<times> content) list)" where
  "plp_loop lib [] st = Inr st"
| "plp_loop lib (r # rs) (plp_entries, cm) =
     (case clean_row r of
        Inl e \<Rightarrow> Inl e
      | Inr cleaned_row \<Rightarrow>
          (case extract_handle_from_url lib (dict_get cleaned_row (U ''URL'') []) of
             None \<Rightarrow> plp_loop lib rs (plp_entries @ [cleaned_row], cm)
           | Some h \<Rightarrow>
               (if h \<noteq> []
                then plp_loop lib rs (plp_entries @ [cleaned_row],
                       AList.update h (content_of_row cleaned_row) cm)
                else plp_loop lib rs (plp_entries @ [cleaned_row], cm))))"

text \<open>
  \<^verbatim>\<open>load_plp_content\<close>. The whole body is in \<^verbatim>\<open>try: ... except Exception as e: ...; raise\<close>,
  so every failure is returned to the caller. Listing \<^verbatim>\<open>reader.fieldnames\<close> of a
  file without a header raises \<^verbatim>\<open>TypeError\<close>.
\<close>

definition load_plp_content :: "pylib \<Rightarrow> script \<Rightarrow> py_error + csv_rows \<Rightarrow> py_error + script" where
  "load_plp_content lib self file =
     (case file of
        Inl e \<Rightarrow> Inl e
      | Inr recs \<Rightarrow>
          (case reader_fieldnames (open_text recs) of
             None \<Rightarrow> Inl TypeError
           | Some fieldnames \<Rightarrow>
               (case plp_loop lib (reader_rows (open_text recs)) ([], content_map self) of
                  Inl e \<Rightarrow> Inl e
                | Inr (plp_entries, cm) \<Rightarrow>
                    Inr (self\<lparr>plp_content := plp_entries, content_map := cm,
                           stats := (stats self)\<lparr>plp_entries_loaded := length plp_entries\<rparr>\<rparr>))))"

text \<open>
  \<^verbatim>\<open>load_shopify_categories\<close>: every row is cleaned into a new dictionary and appended;
  no row is skipped and the result is a list, not a keyed mapping. Failures are raised.
\<close>

fun categories_loop :: "reader_row list \<Rightarrow> store \<times> addr list \<Rightarrow> py_error + (store \<times> addr list)" where
  "categories_loop [] st = Inr st"
| "categories_loop (r # rs) (h, categories) =
     (case clean_row r of
        Inl e \<Rightarrow> Inl e
      | Inr cleaned_row \<Rightarrow>
          (let (h1, a) = alloc h cleaned_row in categories_loop rs (h1, categories @ [a])))"

definition load_shopify_categories :: "script \<Rightarrow> py_error + csv_rows \<Rightarrow> py_error + script" where
  "load_shopify_categories self file =
     (case file of
        Inl e \<Rightarrow> Inl e
      | Inr recs \<Rightarrow>
          (case reader_fieldnames (open_text recs) of
             None \<Rightarrow> Inl TypeError
           | Some fieldnames \<Rightarrow>
               (case categories_loop (reader_rows (open_text recs)) (heap self, []) of
                  Inl e \<Rightarrow> Inl e
                | Inr (h, categories) \<Rightarrow>
                    Inr (self\<lparr>heap := h, shopify_categories := categories,
                           stats := (stats self)\<lparr>shopify_categories_loaded := length categories\<rparr>\<rparr>))))"

text \<open>
  \<^verbatim>\<open>update_shopify_categories\<close>. First the copy,
  \<^verbatim>\<open>self.updated_categories = [dict(category) for category in self.shopify_categories]\<close>:
  each \<^verbatim>\<open>dict(category)\<close> is a new object with the items of the old one.
\<close>

fun copy_categories :: "store \<Rightarrow> addr list \<Rightarrow> store \<times> addr list" where
  "copy_categories h [] = (h, [])"
| "copy_categories h (category # rest) =
     (let (h1, a) = alloc h (h ! category);
          (h2, copies) = copy_categories h1 rest
      in (h2, a # copies))"

text \<open>
  Then the loop over \<^verbatim>\<open>enumerate(self.updated_categories)\<close>; the state is the store and
  the two counters.
  \<^verbatim>\<open>
  if i == 0:  # Skip header if it exists
      continue
  handle = category.get('Handle', '')
  if handle in self.content_map:
      content = self.content_map[handle]
      if content['title']:
          category['Title'] = content['title']
      if content['description']:
          body_html = self.create_html_content(content['title'], content['subheading'],
              content['description'], content['content_under_listing'])
          category['Body HTML'] = body_html
      if content['subheading']:
          category['Metafield: custom.collection_subheading [single_line_text_field]'] = content['subheading']
      updated_count += 1
  else:
      no_match_count += 1
  \<close>
\<close>

fun update_loop :: "(ustring \<times> content) list \<Rightarrow> nat \<Rightarrow> addr list \<Rightarrow> store \<times> nat \<times> nat
    \<Rightarrow> store \<times> nat \<times> nat" where
  "update_loop cm i [] st = st"
| "update_loop cm i (category # rest) (h, updated_count, no_match_count) =
     (if i = 0 then update_loop cm (Suc i) rest (h, updated_count, no_match_count)
      else (case map_of cm (dict_get (h ! category) (U ''Handle'') []) of
              Some c \<Rightarrow>
                (let h1 = (if title c \<noteq> [] then dict_set h category (U ''Title'') (title c) else h);
                     h2 = (if description c \<noteq> []
                           then dict_set h1 category (U ''Body HTML'')
                                  (create_html_content (title c) (subheading c) (description c)
                                     (content_under_listing c))
                           else h1);
                     h3 = (if subheading c \<noteq> []
                           then dict_set h2 category METAFIELD (subheading c)
                           else h2)
                 in update_loop cm (Suc i) rest (h3, updated_count + 1, no_match_count))
            | None \<Rightarrow> update_loop cm (Suc i) rest (h, updated_count, no_match_count + 1)))"

definition update_shopify_categories :: "script \<Rightarrow> script" where
  "update_shopify_categories self =
     (let (h1, copies) = copy_categories (heap self) (shopify_categories self);
          (h2, updated_count, no_match_count) = update_loop (content_map self) 0 copies (h1, 0, 0)
      in self\<lparr>heap := h2, updated_categories := copies,
              stats := (stats self)\<lparr>categories_updated := updated_count,
                                     no_match_found := no_match_count\<rparr>\<rparr>)"

text \<open>
  \<^verbatim>\<open>save_updated_categories\<close>. Nothing is written when there is no record. Otherwise the
  field names are the keys of the first record, and \<^verbatim>\<open>csv.DictWriter\<close> writes the header and
  the rows; a row with a key outside the field names raises \<^verbatim>\<open>ValueError\<close>:
  \<^verbatim>\<open>
  def _dict_to_list(self, rowdict):
      if self.extrasaction == "raise":
          wrong_fields = rowdict.keys() - self.fieldnames
          if wrong_fields:
              raise ValueError(...)
      return (rowdict.get(key, self.restval) for key in self.fieldnames)
  \<close>
  The result is the error raised, or the records written (\<open>None\<close> when no file is written).
  \<open>out\<close> is the error of opening the output file, if any.
\<close>

definition dict_to_list :: "ustring list \<Rightarrow> row \<Rightarrow> py_error + ustring list" where
  "dict_to_list fieldnames rowdict =
     (if list_ex (\<lambda>k. k \<notin> set fieldnames) (map fst rowdict) then Inl ValueError
      else Inr (map (\<lambda>key. dict_get rowdict key []) fieldnames))"

fun writerows :: "ustring list \<Rightarrow> row list \<Rightarrow> py_error + csv_rows" where
  "writerows fieldnames [] = Inr []"
| "writerows fieldnames (rowdict # rest) =
     (case dict_to_list fieldnames rowdict of
        Inl e \<Rightarrow> Inl e
      | Inr cells \<Rightarrow>
          (case writerows fieldnames rest of
             Inl e \<Rightarrow> Inl e
           | Inr written \<Rightarrow> Inr (cells # written)))"

definition save_updated_categories :: "script \<Rightarrow> py_error option \<Rightarrow> py_error + csv_rows option" where
  "save_updated_categories self out =
     (if updated_categories self = [] then Inr None
      else (let fieldnames = map fst (heap self ! hd (updated_categories self)) in
            case out of
              Some e \<Rightarrow> Inl e
            | None \<Rightarrow>
                (case writerows fieldnames
                        (dict_of_pairs (zip fieldnames fieldnames)
                         # map (\<lambda>a. heap self ! a) (updated_categories self)) of
                   Inl e \<Rightarrow> Inl e
                 | Inr written \<Rightarrow> Inr (Some written))))"

text \<open>
  What the body of the merge loop does to one record, as a function on dictionaries: the
  three conditional assignments for a matching content record, and the lookup of the
  handle in the content map. Used to state the effect of the loop on the store.
\<close>

definition merge_record :: "content \<Rightarrow> row \<Rightarrow> row" where
  "merge_record c r =
     (let r1 = (if title c \<noteq> [] then AList.update (U ''Title'') (title c) r else r);
          r2 = (if description c \<noteq> []
                then AList.update (U ''Body HTML'')
                       (create_html_content (title c) (subheading c) (description c)
                          (content_under_listing c)) r1
                else r1);
          r3 = (if subheading c \<noteq> [] then AList.update METAFIELD (subheading c) r2 else r2)
      in r3)"

definition merged :: "(ustring \<times> content) list \<Rightarrow> row \<Rightarrow> row" where
  "merged cm r =
     (case map_of cm (dict_get r (U ''Handle'') []) of None \<Rightarrow> r | Some c \<Rightarrow> merge_record c r)"

text \<open>
  A small state of the script for closed instances: three destination records, the first
  two with the handle \<^verbatim>\<open>tacori\<close>, and one source record for that handle.
\<close>

definition demo_content :: content where
  "demo_content = \<lparr>title = U ''Tacori Rings'', subheading = [], description = U ''Fine rings'',
     content_under_listing = []\<rparr>"

definition demo_script :: script where
  "demo_script =
     \<lparr>heap = [ [(U ''Handle'', U ''tacori''), (U ''Title'', U ''Tacori'')],
              [(U ''Handle'', U ''tacori''), (U ''Title'', U ''Tacori'')],
              [(U ''Handle'', U ''verragio''), (U ''Title'', U ''Verragio'')] ],
      plp_content = [],
      shopify_categories = [0, 1, 2],
      updated_categories = [],
      content_map = [(U ''tacori'', demo_content)],
      stats = \<lparr>plp_entries_loaded = 0, shopify_categories_loaded = 0,
                categories_updated = 0, no_match_found = 0\<rparr>\<rparr>"

section \<open>The loaders of the report scripts\<close>

text \<open>
  The loop of \<^verbatim>\<open>load_shopify_data\<close> (\<^verbatim>\<open>analyze_migration_coverage.py\<close>) and of
  \<^verbatim>\<open>load_csv_data\<close> (\<^verbatim>\<open>show_updated_collections.py\<close>), keyed by handle:
  \<^verbatim>\<open>
  for row in reader:
      cleaned_row = ... the cleaning loop ...
      handle = cleaned_row.get('Handle', '')
      if handle and handle != 'Handle':
          data[handle] = cleaned_row
  \<close>
\<close>

fun handle_rows_loop :: "reader_row list \<Rightarrow> (ustring \<times> row) list \<Rightarrow> py_error + (ustring \<times> row) list" where
  "handle_rows_loop [] data = Inr data"
| "handle_rows_loop (r # rs) data =
     (case clean_row r of
        Inl e \<Rightarrow> Inl e
      | Inr cleaned_row \<Rightarrow>
          (if dict_get cleaned_row (U ''Handle'') [] \<noteq> []
              \<and> dict_get cleaned_row (U ''Handle'') [] \<noteq> U ''Handle''
           then handle_rows_loop rs
                  (AList.update (dict_get cleaned_row (U ''Handle'') []) cleaned_row data)
           else handle_rows_loop rs data))"

text \<open>\<^verbatim>\<open>load_shopify_data(filename, data_dict)\<close> fills the dictionary it is given and raises on failure.\<close>

definition load_shopify_data :: "(ustring \<times> row) list \<Rightarrow> py_error + csv_rows
    \<Rightarrow> py_error + (ustring \<times> row) list" where
  "load_shopify_data data_dict file =
     (case file of
        Inl e \<Rightarrow> Inl e
      | Inr recs \<Rightarrow> handle_rows_loop (reader_rows (open_text recs)) data_dict)"

text \<open>
  \<^verbatim>\<open>load_csv_data(filename)\<close> starts from an empty dictionary; its handler is
  \<^verbatim>\<open>except Exception as e: logger.error(...); return {}\<close>.
\<close>

definition load_csv_data :: "py_error + csv_rows \<Rightarrow> (ustring \<times> row) list" where
  "load_csv_data file =
     (case file of
        Inl e \<Rightarrow> []
      | Inr recs \<Rightarrow>
          (case handle_rows_loop (reader_rows (open_text recs)) [] of
             Inl e \<Rightarrow> []
           | Inr data \<Rightarrow> data))"

text \<open>
  \<^verbatim>\<open>load_csv_file(filename, is_plp)\<close> of \<^verbatim>\<open>validate_results.py\<close>. For the destination
  files the key is the ID:
  \<^verbatim>\<open>
  category_id = cleaned_row.get('ID', '')
  if category_id:
      data[category_id] = cleaned_row
  \<close>
  For the source file the key is the URL, and \<^verbatim>\<open>self.content_map\<close> is filled on the way:
  \<^verbatim>\<open>
  url = cleaned_row.get('URL', '')
  if url:
      data[url] = cleaned_row
      handle = self.extract_handle_from_url(url)
      if handle:
          self.content_map[handle] = cleaned_row
  \<close>
  The handler is \<^verbatim>\<open>except Exception as e: logger.error(...); return {}\<close>. The result is the
  dictionary returned and the content map after the call.
\<close>

fun id_rows_loop :: "reader_row list \<Rightarrow> (ustring \<times> row) list \<Rightarrow> py_error + (ustring \<times> row) list" where
  "id_rows_loop [] data = Inr data"
| "id_rows_loop (r # rs) data =
     (case clean_row r of
        Inl e \<Rightarrow> Inl e
      | Inr cleaned_row \<Rightarrow>
          (if dict_get cleaned_row (U ''ID'') [] \<noteq> []
           then id_rows_loop rs (AList.update (dict_get cleaned_row (U ''ID'') []) cleaned_row data)
           else id_rows_loop rs data))"

fun url_rows_loop :: "pylib \<Rightarrow> reader_row list \<Rightarrow> (ustring \<times> row) list \<Rightarrow> (ustring \<times> row) list
    \<Rightarrow> (py_error + (ustring \<times> row) list) \<times> (ustring \<times> row) list" where
  "url_rows_loop lib [] data cm = (Inr data, cm)"
| "url_rows_loop lib (r # rs) data cm =
     (case clean_row r of
        Inl e \<Rightarrow> (Inl e, cm)
      | Inr cleaned_row \<Rightarrow>
          (if dict_get cleaned_row (U ''URL'') [] \<noteq> []
           then (case extract_handle_from_url lib (dict_get cleaned_row (U ''URL'') []) of
                   None \<Rightarrow>
                     url_rows_loop lib rs
                       (AList.update (dict_get cleaned_row (U ''URL'') []) cleaned_row data) cm
                 | Some h \<Rightarrow>
                     (if h \<noteq> []
                      then url_rows_loop lib rs
                             (AList.update (dict_get cleaned_row (U ''URL'') []) cleaned_row data)
                             (AList.update h cleaned_row cm)
                      else url_rows_loop lib rs
                             (AList.update (dict_get cleaned_row (U ''URL'') []) cleaned_row data) cm))
           else url_rows_loop lib rs data cm))"

definition load_csv_file :: "pylib \<Rightarrow> (ustring \<times> row) list \<Rightarrow> py_error + csv_rows \<Rightarrow> bool
    \<Rightarrow> (ustring \<times> row) list \<times> (ustring \<times> row) list" where
  "load_csv_file lib cm file is_plp =
     (case file of
        Inl e \<Rightarrow> ([], cm)
      | Inr recs \<Rightarrow>
          (if is_plp
           then (case url_rows_loop lib (reader_rows (open_text recs)) [] cm of
                   (Inl e, cm') \<Rightarrow> ([], cm')
                 | (Inr data, cm') \<Rightarrow> (data, cm'))
           else (case id_rows_loop (reader_rows (open_text recs)) [] of
                   Inl e \<Rightarrow> ([], cm)
                 | Inr data \<Rightarrow> (data, cm))))"

section \<open>The change reporters\<close>





record change_info =
  category_id :: ustring
  handle :: ustring
  original_title :: ustring
  updated_title :: ustring
  has_html_content :: bool
  has_subheading :: bool
  changes :: "ustring list"
  html_preview :: ustring













section \<open>Views of the loaders used in the statements\<close>

text \<open>
  All rows of a reader cleaned in order: the cleaned rows, or the first error. The rows
  that a handle-keyed and an ID-keyed loader keep, and the lookup that results from
  assigning the kept rows to their keys one after the other, starting from \<open>data\<close>: the
  last kept row with the key, or what \<open>data\<close> had.
\<close>

fun clean_rows :: "reader_row list \<Rightarrow> py_error + row list" where
  "clean_rows [] = Inr []"
| "clean_rows (r # rs) =
     (case clean_row r of
        Inl e \<Rightarrow> Inl e
      | Inr c \<Rightarrow> (case clean_rows rs of Inl e \<Rightarrow> Inl e | Inr cs \<Rightarrow> Inr (c # cs)))"

definition kept_by_handle :: "row \<Rightarrow> bool" where
  "kept_by_handle c =
     (dict_get c (U ''Handle'') [] \<noteq> [] \<and> dict_get c (U ''Handle'') [] \<noteq> U ''Handle'')"

definition kept_by_id :: "row \<Rightarrow> bool" where
  "kept_by_id c = (dict_get c (U ''ID'') [] \<noteq> [])"

definition last_kept :: "(row \<Rightarrow> bool) \<Rightarrow> ustring \<Rightarrow> (ustring \<times> row) list \<Rightarrow> row list \<Rightarrow> ustring
    \<Rightarrow> row option" where
  "last_kept kept key_column data cs k =
     (if filter (\<lambda>c. kept c \<and> dict_get c key_column [] = k) cs = [] then map_of data k
      else Some (last (filter (\<lambda>c. kept c \<and> dict_get c key_column [] = k) cs)))"

text \<open>The failure of a load, if any: of opening or reading the file, or of cleaning a row.\<close>

definition load_failure :: "py_error + csv_rows \<Rightarrow> py_error option" where
  "load_failure file =
     (case file of
        Inl e \<Rightarrow> Some e
      | Inr recs \<Rightarrow> (case clean_rows (reader_rows (open_text recs)) of Inl e \<Rightarrow> Some e | Inr cs \<Rightarrow> None))"

text \<open>A state of the script before anything is loaded, as \<^verbatim>\<open>__init__\<close> leaves it.\<close>

definition init_script :: script where
  "init_script =
     \<lparr>heap = [], plp_content = [], shopify_categories = [], updated_categories = [],
      content_map = [],
      stats = \<lparr>plp_entries_loaded = 0, shopify_categories_loaded = 0,
                categories_updated = 0, no_match_found = 0\<rparr>\<rparr>"

text \<open>
  The round trip of a destination file: \<^verbatim>\<open>load_shopify_categories\<close>,
  \<^verbatim>\<open>update_shopify_categories\<close>, \<^verbatim>\<open>save_updated_categories\<close> to a writable file. The
  load reads the file through \<^verbatim>\<open>open(filename, 'r', encoding='utf-8')\<close>, so the cells reach
  the reader with their carriage returns translated (\<open>open_text\<close>); the save writes
  through \<^verbatim>\<open>open(filename, 'w', newline='', encoding='utf-8')\<close>, which translates nothing.
  The result is the error raised or the records written, if a file is written.
\<close>

definition round_trip :: "script \<Rightarrow> csv_rows \<Rightarrow> py_error + csv_rows option" where
  "round_trip self recs =
     (case load_shopify_categories self (Inr recs) of
        Inl e \<Rightarrow> Inl e
      | Inr loaded \<Rightarrow> save_updated_categories (update_shopify_categories loaded) None)"

text \<open>
  A row as the round trip writes it: every cell with its carriage returns translated and
  then trimmed, and an empty cell for every field name that a short row lacks.
\<close>

definition padded_row :: "ustring list \<Rightarrow> ustring list \<Rightarrow> ustring list" where
  "padded_row fieldnames r = map py_strip r @ replicate (length fieldnames - length r) []"

definition written_row :: "ustring list \<Rightarrow> ustring list \<Rightarrow> ustring list" where
  "written_row fieldnames r = padded_row fieldnames (map universal_newlines r)"

text \<open>
  No row of the file is longer than the header (a file without records has no row). A
  longer row has cells beyond the field names, which the cleaning loop cannot strip.
\<close>

definition no_long_row :: "csv_rows \<Rightarrow> bool" where
  "no_long_row recs =
     (case recs of
        [] \<Rightarrow> True
      | fieldnames # rest \<Rightarrow> list_all (\<lambda>r. length r \<le> length fieldnames) rest)"


section \<open>Properties of field-name cleaning\<close>

lemma strip_by_sandwich:
  assumes "core \<noteq> []" "\<not> P (hd core)" "\<not> P (last core)"
    and "\<forall>c\<in>set pre. P c" "\<forall>c\<in>set suf. P c"
  shows "strip_by P (pre @ core @ suf) = core"
proof -
  obtain x xs where core: "core = x # xs"
    using assms(1) by (cases core) auto
  have front: "dropWhile P (pre @ core @ suf) = core @ suf"
    using assms(2,4) core by (simp add: dropWhile_append)
  have "rev core \<noteq> []" and "hd (rev core) = last core"
    using assms(1) by (simp_all add: hd_rev)
  then obtain y ys where rc: "rev core = y # ys" and y: "y = last core"
    by (cases "rev core") auto
  have "dropWhile P (rev suf @ rev core) = dropWhile P (rev core)"
    using assms(5) by (simp add: dropWhile_append)
  also have "\<dots> = rev core"
    unfolding rc using assms(3) y by simp
  finally show ?thesis
    by (simp add: strip_by_def front)
qed

lemma strip_by_no_match:
  assumes "core \<noteq> []" "\<not> P (hd core)" "\<not> P (last core)"
  shows "strip_by P core = core"
  using strip_by_sandwich [of core P "[]" "[]"] assms by simp

lemma replace1_remove_filter: "py_replace1 c [] s = filter (\<lambda>x. x \<noteq> c) s"
  by (induction s) (simp_all add: py_replace1_def)

lemma set_strip_by_subset: "set (strip_by P s) \<subseteq> set s"
proof -
  have "set (dropWhile P (rev (dropWhile P s))) \<subseteq> set (rev (dropWhile P s))"
    by (rule set_dropWhileD [THEN subsetI])
  also have "\<dots> \<subseteq> set s"
    using set_dropWhileD [of _ P s] by auto
  finally show ?thesis
    by (simp add: strip_by_def)
qed

lemma clean_field_name_no_bom: "BOM \<notin> set (clean_field_name (Some s))"
proof -
  have "BOM \<notin> set (py_replace1 BOM [] s)"
    by (simp add: replace1_remove_filter)
  then show ?thesis
    using set_strip_by_subset
    by (auto simp: py_strip_def py_strip_chars_def dest!: subsetD [OF set_strip_by_subset])
qed

lemma hd_replicate_append: "hd (replicate m x @ ys) = (if m = 0 then hd ys else x)"
  by (cases m) auto

lemma last_append_replicate: "last (ys @ replicate n x) = (if n = 0 then last ys else x)"
  by (cases n) (auto simp: replicate_append_same [symmetric] simp del: replicate_Suc)

lemma clean_field_name_layers:
  assumes core: "core \<noteq> []" "BOM \<notin> set core"
    and first: "\<not> py_isspace (hd core)" "hd core \<noteq> DQUOTE" "hd core \<noteq> SQUOTE"
    and final: "\<not> py_isspace (last core)" "last core \<noteq> DQUOTE" "last core \<noteq> SQUOTE"
    and ws: "\<forall>c\<in>set ws1. py_isspace c \<or> c = BOM" "\<forall>c\<in>set ws2. py_isspace c \<or> c = BOM"
  shows "clean_field_name (Some (ws1 @ replicate m DQUOTE @ replicate k SQUOTE @ core
            @ replicate l SQUOTE @ replicate n DQUOTE @ ws2)) = core"
proof -
  define inner where "inner = replicate k SQUOTE @ core @ replicate l SQUOTE"
  define quoted where "quoted = replicate m DQUOTE @ inner @ replicate n DQUOTE"
  define pre where "pre = filter (\<lambda>x. x \<noteq> BOM) ws1"
  define suf where "suf = filter (\<lambda>x. x \<noteq> BOM) ws2"
  have fcore: "filter (\<lambda>x. x \<noteq> BOM) core = core"
    using core(2) by (induction core) auto
  have removed: "py_replace1 BOM [] (ws1 @ replicate m DQUOTE @ replicate k SQUOTE @ core
            @ replicate l SQUOTE @ replicate n DQUOTE @ ws2) = pre @ quoted @ suf"
    by (simp add: replace1_remove_filter fcore pre_def suf_def quoted_def inner_def)
  have pre: "\<forall>c\<in>set pre. py_isspace c" and suf: "\<forall>c\<in>set suf. py_isspace c"
    using ws by (auto simp: pre_def suf_def)
  have inner_ne: "inner \<noteq> []"
    using core(1) by (simp add: inner_def)
  have hd_inner: "hd inner = (if k = 0 then hd core else SQUOTE)"
    using core(1) by (simp add: inner_def hd_replicate_append)
  have last_inner: "last inner = (if l = 0 then last core else SQUOTE)"
    using core(1) last_append_replicate [of "replicate k SQUOTE @ core" l SQUOTE]
    by (simp add: inner_def)
  have quoted_ne: "quoted \<noteq> []"
    using inner_ne by (simp add: quoted_def)
  have hd_quoted: "hd quoted = (if m = 0 then hd inner else DQUOTE)"
    using inner_ne by (simp add: quoted_def hd_replicate_append)
  have last_quoted: "last quoted = (if n = 0 then last inner else DQUOTE)"
    using inner_ne last_append_replicate [of "replicate m DQUOTE @ inner" n DQUOTE]
    by (simp add: quoted_def)
  have sp: "\<not> py_isspace DQUOTE" "\<not> py_isspace SQUOTE"
    by (simp_all add: py_isspace_def)
  have step1: "py_strip (pre @ quoted @ suf) = quoted"
    unfolding py_strip_def
    using quoted_ne pre suf first(1) final(1) sp
    by (intro strip_by_sandwich) (simp_all add: hd_quoted last_quoted hd_inner last_inner)
  have step2: "py_strip_chars [DQUOTE] quoted = inner"
    unfolding py_strip_chars_def quoted_def
    using inner_ne first(2) final(2)
    by (intro strip_by_sandwich) (simp_all add: hd_inner last_inner)
  have step3: "py_strip_chars [SQUOTE] inner = core"
    unfolding py_strip_chars_def inner_def
    using core(1) first(3) final(3)
    by (intro strip_by_sandwich) simp_all
  show ?thesis
    using core(1) by (simp add: removed step1 step2 step3)
qed

lemma clean_field_name_bom_url: "clean_field_name (Some (BOM # U ''URL'')) = U ''URL''"
  by (simp add: py_replace1_def py_strip_def py_strip_chars_def strip_by_def py_isspace_def)

lemma stripped_to_strip_by: "stripped_to P s (strip_by P s)"
proof -
  define d where "d = dropWhile P s"
  define t where "t = rev (dropWhile P (rev d))"
  define suf where "suf = rev (takeWhile P (rev d))"
  have t: "strip_by P s = t"
    by (simp add: strip_by_def t_def d_def)
  have "rev (takeWhile P (rev d) @ dropWhile P (rev d)) = rev (rev d)"
    by (simp only: takeWhile_dropWhile_id)
  then have "rev (dropWhile P (rev d)) @ rev (takeWhile P (rev d)) = d"
    by (simp only: rev_append rev_rev_ident)
  then have d: "d = t @ suf"
    by (simp only: t_def suf_def)
  have "s = takeWhile P s @ d"
    by (simp add: d_def)
  then have s: "s = takeWhile P s @ t @ suf"
    using d by simp
  have pre: "list_all P (takeWhile P s)"
    by (auto simp: list_all_iff dest: set_takeWhileD)
  have sufP: "list_all P suf"
    by (auto simp: suf_def list_all_iff dest: set_takeWhileD)
  have ends: "\<not> P (hd t) \<and> \<not> P (last t)" if ne: "t \<noteq> []"
  proof -
    have dne: "dropWhile P (rev d) \<noteq> []"
      using ne by (simp add: t_def)
    then have "\<not> P (hd (dropWhile P (rev d)))"
      by (rule hd_dropWhile)
    then have l: "\<not> P (last t)"
      using dne by (simp add: t_def last_rev)
    have "d \<noteq> []" using d ne by simp
    then have "\<not> P (hd d)"
      unfolding d_def by (rule hd_dropWhile)
    then have "\<not> P (hd t)"
      using d ne by simp
    then show ?thesis using l by simp
  qed
  show ?thesis
    unfolding stripped_to_def t using s pre sufP ends by blast
qed

lemma stripped_to_unique:
  assumes "stripped_to P s t"
  shows "t = strip_by P s"
proof -
  from assms obtain pre suf where s: "s = pre @ t @ suf"
    and pre: "list_all P pre" and suf: "list_all P suf"
    and ends: "t = [] \<or> (\<not> P (hd t) \<and> \<not> P (last t))"
    unfolding stripped_to_def by blast
  show ?thesis
  proof (cases "t = []")
    case True
    then have "\<forall>c\<in>set s. P c"
      using s pre suf by (auto simp: list_all_iff)
    then have nil: "dropWhile P s = []"
      by simp
    have "strip_by P s = []"
      unfolding strip_by_def nil by simp
    then show ?thesis
      using True by simp
  next
    case False
    then have "strip_by P (pre @ t @ suf) = t"
      using ends pre suf by (intro strip_by_sandwich) (auto simp: list_all_iff)
    then show ?thesis
      using s by simp
  qed
qed

lemma stripped_to_iff: "stripped_to P s t \<longleftrightarrow> t = strip_by P s"
  using stripped_to_strip_by stripped_to_unique by blast

lemma clean_field_name_steps:
  "clean_field_name (Some s) = t \<longleftrightarrow>
     (\<exists>a b. stripped_to py_isspace (filter (\<lambda>c. c \<noteq> BOM) s) a
        \<and> stripped_to (\<lambda>c. c = DQUOTE) a b
        \<and> stripped_to (\<lambda>c. c = SQUOTE) b t)"
proof -
  have empty: "strip_by P [] = []" for P
    by (simp add: strip_by_def)
  have "clean_field_name (Some s)
          = strip_by (\<lambda>c. c = SQUOTE) (strip_by (\<lambda>c. c = DQUOTE)
              (strip_by py_isspace (filter (\<lambda>c. c \<noteq> BOM) s)))"
    by (cases "s = []") (simp_all add: empty py_strip_def py_strip_chars_def replace1_remove_filter)
  then show ?thesis
    by (auto simp: stripped_to_iff)
qed

text \<open>
  C5, as the code has it. For every column-name string \<open>s\<close>, the cleaned name is \<open>t\<close>
  exactly when \<open>t\<close> comes from \<open>s\<close> by these four steps in this order: every byte-order
  mark is removed, wherever it stands; the white space at the two ends is removed; then
  the whole run of double quotes at each end; then the whole run of single quotes at each
  end. Each step is done once: white space or double quotes that come to an end through a
  later step stay. The column name made of U+FEFF followed by \<^verbatim>\<open>URL\<close> is cleaned to
  \<^verbatim>\<open>URL\<close>.
\<close>

theorem clean_field_name_strips_quote_runs:
  "(clean_field_name (Some s) = t \<longleftrightarrow>
     (\<exists>a b. stripped_to py_isspace (filter (\<lambda>c. c \<noteq> BOM) s) a
        \<and> stripped_to (\<lambda>c. c = DQUOTE) a b
        \<and> stripped_to (\<lambda>c. c = SQUOTE) b t))
   \<and> clean_field_name (Some (BOM # U ''URL'')) = U ''URL''"
  using clean_field_name_steps [of s t] clean_field_name_bom_url by blast

text \<open>
  A name in single quotes around double quotes: the double quotes are not at an end when
  their step comes, so they stay.
\<close>

theorem clean_field_name_strips_quote_runs_witness:
  "clean_field_name (Some (U '' '' @ [SQUOTE, SQUOTE, DQUOTE] @ U ''Body HTML'' @ [DQUOTE, SQUOTE] @ [BOM]))
     = [DQUOTE] @ U ''Body HTML'' @ [DQUOTE]"
proof -
  let ?s = "U '' '' @ [SQUOTE, SQUOTE, DQUOTE] @ U ''Body HTML'' @ [DQUOTE, SQUOTE] @ [BOM]"
  let ?a = "[SQUOTE, SQUOTE, DQUOTE] @ U ''Body HTML'' @ [DQUOTE, SQUOTE]"
  let ?t = "[DQUOTE] @ U ''Body HTML'' @ [DQUOTE]"
  have 1: "stripped_to py_isspace (filter (\<lambda>c. c \<noteq> BOM) ?s) ?a"
    unfolding stripped_to_def
    by (rule exI [of _ "U '' ''"], rule exI [of _ "[]"]) (simp add: py_isspace_def)
  have 2: "stripped_to (\<lambda>c. c = DQUOTE) ?a ?a"
    unfolding stripped_to_def
    by (rule exI [of _ "[]"], rule exI [of _ "[]"]) simp
  have 3: "stripped_to (\<lambda>c. c = SQUOTE) ?a ?t"
    unfolding stripped_to_def
    by (rule exI [of _ "[SQUOTE, SQUOTE]"], rule exI [of _ "[SQUOTE]"]) simp
  from 1 2 3 clean_field_name_strips_quote_runs [of ?s ?t]
  show ?thesis by blast
qed

text \<open>
  C5 as the specification words it (one layer of quotes) differs from the code on a name
  wrapped in two layers of double quotes: the code removes both.
\<close>

theorem clean_field_name_two_layers_counterexample:
  "clean_field_name (Some ([DQUOTE, DQUOTE] @ U ''URL'' @ [DQUOTE, DQUOTE])) = U ''URL'' \<and>
   spec_clean_field_name ([DQUOTE, DQUOTE] @ U ''URL'' @ [DQUOTE, DQUOTE]) = [DQUOTE] @ U ''URL'' @ [DQUOTE] \<and>
   clean_field_name (Some ([DQUOTE, DQUOTE] @ U ''URL'' @ [DQUOTE, DQUOTE]))
     \<noteq> spec_clean_field_name ([DQUOTE, DQUOTE] @ U ''URL'' @ [DQUOTE, DQUOTE])"
  by (simp add: spec_clean_field_name_def strip_one_quote_layer_def py_replace1_def
      py_strip_def py_strip_chars_def strip_by_def py_isspace_def)

section \<open>Properties of the HTML synthesis\<close>

lemma py_replace1_append: "py_replace1 c r (xs @ ys) = py_replace1 c r xs @ py_replace1 c r ys"
  by (simp add: py_replace1_def)

lemma py_replace1_concat: "py_replace1 c r (concat xss) = concat (map (py_replace1 c r) xss)"
  by (induction xss) (simp_all add: py_replace1_append, simp add: py_replace1_def)

lemma py_replace1_pointwise: "py_replace1 c r s = concat (map (\<lambda>x. py_replace1 c r [x]) s)"
  by (simp add: py_replace1_def)

lemma escape_one_char:
  "py_replace1 SQUOTE (U ''&#x27;'') (py_replace1 DQUOTE (U ''&quot;'')
     (py_replace1 0x3E (U ''&gt;'') (py_replace1 0x3C (U ''&lt;'')
       (py_replace1 0x26 (U ''&amp;'') [x])))) = escape_char x"
  by (simp add: py_replace1_def escape_char_def)

lemma html_escape_charwise: "html_escape s = concat (map escape_char s)"
proof -
  have "html_escape s =
    py_replace1 SQUOTE (U ''&#x27;'') (py_replace1 DQUOTE (U ''&quot;'')
     (py_replace1 0x3E (U ''&gt;'') (py_replace1 0x3C (U ''&lt;'')
       (concat (map (\<lambda>x. py_replace1 0x26 (U ''&amp;'') [x]) s)))))"
    unfolding html_escape_def Let_def
    by (subst py_replace1_pointwise [of "0x26"]) (rule refl)
  also have "\<dots> = concat (map (\<lambda>x.
    py_replace1 SQUOTE (U ''&#x27;'') (py_replace1 DQUOTE (U ''&quot;'')
     (py_replace1 0x3E (U ''&gt;'') (py_replace1 0x3C (U ''&lt;'')
       (py_replace1 0x26 (U ''&amp;'') [x]))))) s)"
    by (simp only: py_replace1_concat map_map comp_def)
  also have "\<dots> = concat (map escape_char s)"
    by (simp only: escape_one_char)
  finally show ?thesis .
qed

lemma escape_char_safe: "set (escape_char c) \<inter> {0x3C, 0x3E, DQUOTE, SQUOTE} = {}"
  by (simp add: escape_char_def)

lemma html_escape_safe: "set (html_escape s) \<inter> {0x3C, 0x3E, DQUOTE, SQUOTE} = {}"
proof -
  have "set (concat (map escape_char s)) \<inter> {0x3C, 0x3E, DQUOTE, SQUOTE} = {}"
    using escape_char_safe by (induction s) (auto simp: Int_Un_distrib2)
  then show ?thesis
    by (simp only: html_escape_charwise)
qed

lemma create_html_content_shape:
  "create_html_content ttl sub dsc cul =
     U ''<div class='' @ [0x22] @ U ''collection-description'' @ [0x22] @ U ''>''
     @ (if ttl = [] then [] else U ''<h1>'' @ html_escape ttl @ U ''</h1>'')
     @ (if sub = [] then [] else U ''<h2>'' @ html_escape sub @ U ''</h2>'')
     @ (if dsc = [] then [] else U ''<p>'' @ html_escape dsc @ U ''</p>'')
     @ (if cul = [] then []
        else U ''<div class='' @ [0x22] @ U ''content-under-listing'' @ [0x22] @ U ''>''
             @ html_escape cul @ U ''</div>'')
     @ U ''</div>''"
  by (simp add: create_html_content_def)

lemma html_escape_specials:
  "html_escape [0x26, 0x3C, 0x3E, 0x22, 0x27] = U ''&amp;&lt;&gt;&quot;&#x27;''"
  by (simp add: html_escape_charwise escape_char_def)

lemma html_escape_plain:
  "c \<notin> {0x26, 0x3C, 0x3E, 0x22, 0x27} \<Longrightarrow> html_escape [c] = [c]"
  by (simp add: html_escape_charwise escape_char_def)

text \<open>
  C8. The synthesized body is the container \<^verbatim>\<open><div class="collection-description">\<close>
  (the double quote is the code point 0x22) around, in this order, \<^verbatim>\<open><h1>\<close> for the title,
  \<^verbatim>\<open><h2>\<close> for the subheading, \<^verbatim>\<open><p>\<close> for the description and
  \<^verbatim>\<open><div class="content-under-listing">\<close> for the supplementary text, closed by \<^verbatim>\<open></div>\<close>;
  each of the four is present exactly when its value is non-empty. Every interpolated value
  \<open>v\<close> goes through \<open>html_escape\<close>, which replaces each special character by its entity
  (the five sequential replacements of the library amount to one pass with \<open>escape_char\<close>):
  the ampersand, \<^verbatim>\<open><\<close>, \<^verbatim>\<open>>\<close>, the double quote and the single quote become \<^verbatim>\<open>&amp;\<close>,
  \<^verbatim>\<open>&lt;\<close>, \<^verbatim>\<open>&gt;\<close>, \<^verbatim>\<open>&quot;\<close> and \<^verbatim>\<open>&#x27;\<close>, any other character stays, and the
  result holds none of \<^verbatim>\<open><\<close>, \<^verbatim>\<open>>\<close>, the double quote and the single quote.
\<close>

theorem create_html_content_template:
  "create_html_content ttl sub dsc cul =
     U ''<div class='' @ [0x22] @ U ''collection-description'' @ [0x22] @ U ''>''
     @ (if ttl = [] then [] else U ''<h1>'' @ html_escape ttl @ U ''</h1>'')
     @ (if sub = [] then [] else U ''<h2>'' @ html_escape sub @ U ''</h2>'')
     @ (if dsc = [] then [] else U ''<p>'' @ html_escape dsc @ U ''</p>'')
     @ (if cul = [] then []
        else U ''<div class='' @ [0x22] @ U ''content-under-listing'' @ [0x22] @ U ''>''
             @ html_escape cul @ U ''</div>'')
     @ U ''</div>''
   \<and> html_escape v = concat (map escape_char v)
   \<and> set (html_escape v) \<inter> {0x3C, 0x3E, 0x22, 0x27} = {}
   \<and> html_escape [0x26, 0x3C, 0x3E, 0x22, 0x27] = U ''&amp;&lt;&gt;&quot;&#x27;''
   \<and> (c \<notin> {0x26, 0x3C, 0x3E, 0x22, 0x27} \<longrightarrow> html_escape [c] = [c])"
  using create_html_content_shape html_escape_charwise html_escape_safe html_escape_specials
    html_escape_plain
  by blast

theorem create_html_content_template_witness:
  "create_html_content (U ''A&B'') [] (U ''<i>'') (U ''x'') =
     U ''<div class='' @ [0x22] @ U ''collection-description'' @ [0x22]
     @ U ''><h1>A&amp;B</h1><p>&lt;i&gt;</p><div class='' @ [0x22] @ U ''content-under-listing''
     @ [0x22] @ U ''>x</div></div>''
   \<and> html_escape (U ''A&B'') = U ''A&amp;B''
   \<and> html_escape [0x41] = [0x41]"
  using create_html_content_template [of "U ''A&B''" "[]" "U ''<i>''" "U ''x''" "U ''A&B''" "0x41"]
    create_html_content_template [of "U ''A&B''" "[]" "U ''<i>''" "U ''x''" "U ''<i>''" "0x41"]
    create_html_content_template [of "U ''A&B''" "[]" "U ''<i>''" "U ''x''" "U ''x''" "0x41"]
  by (simp add: escape_char_def)

section \<open>Properties of handle extraction\<close>

lemma py_split1_ne: "py_split1 c s \<noteq> []"
  by (cases s) auto

lemma py_split1_append_sep: "py_split1 c (xs @ c # ys) = py_split1 c xs @ py_split1 c ys"
  by (induction xs) (auto simp: py_split1_ne)

lemma segments_lstrip:
  "filter (\<lambda>seg. seg \<noteq> []) (py_split1 c (dropWhile (\<lambda>x. x = c) p)) = filter (\<lambda>seg. seg \<noteq> []) (py_split1 c p)"
  by (induction p) auto

lemma segments_rstrip:
  "filter (\<lambda>seg. seg \<noteq> []) (py_split1 c (rev (dropWhile (\<lambda>x. x = c) (rev p)))) = filter (\<lambda>seg. seg \<noteq> []) (py_split1 c p)"
proof (induction p rule: rev_induct)
  case Nil
  then show ?case by simp
next
  case (snoc x xs)
  show ?case
  proof (cases "x = c")
    case True
    then show ?thesis
      using snoc py_split1_append_sep [of c xs "[]"] by simp
  next
    case False
    then show ?thesis by simp
  qed
qed

lemma segments_strip:
  "filter (\<lambda>seg. seg \<noteq> []) (py_split1 SLASH (py_strip_chars [SLASH] p)) = nonempty_segments p"
proof -
  have "py_strip_chars [SLASH] p = rev (dropWhile (\<lambda>x. x = SLASH) (rev (dropWhile (\<lambda>x. x = SLASH) p)))"
    by (simp add: py_strip_chars_def strip_by_def)
  then show ?thesis
    by (simp only: segments_rstrip segments_lstrip nonempty_segments_def)
qed

lemma set_py_split1: "seg \<in> set (py_split1 c s) \<Longrightarrow> set seg \<subseteq> set s"
proof (induction s arbitrary: seg)
  case Nil
  then show ?case by simp
next
  case (Cons x xs)
  have ne: "py_split1 c xs \<noteq> []" by (rule py_split1_ne)
  then have hd_in: "hd (py_split1 c xs) \<in> set (py_split1 c xs)" by simp
  show ?case
  proof (cases "x = c")
    case True
    with Cons show ?thesis by auto
  next
    case False
    with Cons.prems have "seg = x # hd (py_split1 c xs) \<or> seg \<in> set (tl (py_split1 c xs))"
      by simp
    then show ?thesis
      using Cons.IH hd_in list.set_sel(2) [OF ne] by fastforce
  qed
qed

lemma py_split1_no_sep: "seg \<in> set (py_split1 c s) \<Longrightarrow> c \<notin> set seg"
proof (induction s arbitrary: seg)
  case Nil
  then show ?case by simp
next
  case (Cons x xs)
  have ne: "py_split1 c xs \<noteq> []" by (rule py_split1_ne)
  then have hd_in: "hd (py_split1 c xs) \<in> set (py_split1 c xs)" by simp
  show ?case
  proof (cases "x = c")
    case True
    with Cons show ?thesis by auto
  next
    case False
    with Cons.prems have "seg = x # hd (py_split1 c xs) \<or> seg \<in> set (tl (py_split1 c xs))"
      by simp
    then show ?thesis
      using Cons.IH hd_in list.set_sel(2) [OF ne] False by fastforce
  qed
qed

lemma re_sub_html_no_newline:
  assumes "0x0A \<notin> set s"
  shows "re_sub_html s = remove_html_suffix s"
proof -
  have "drop (length s - 6) s \<noteq> U ''.html'' @ [0x0A]"
  proof
    assume h: "drop (length s - 6) s = U ''.html'' @ [0x0A]"
    have "set (drop (length s - 6) s) \<subseteq> set s" by (rule set_drop_subset)
    then show False using assms h by simp
  qed
  moreover have "drop (length s - 5) s = U ''.html'' \<Longrightarrow> 5 \<le> length s"
  proof -
    assume "drop (length s - 5) s = U ''.html''"
    then have "length (drop (length s - 5) s) = 5" by simp
    then show ?thesis by simp
  qed
  ultimately show ?thesis
    by (auto simp: re_sub_html_def remove_html_suffix_def)
qed

lemma py_replace1_remove_set: "set (py_replace1 c [] s) = set s - {c}"
  by (auto simp: replace1_remove_filter)

lemma remove_unsafe_set: "set (remove_unsafe url) = set url - {0x09, 0x0A, 0x0D}"
  by (auto simp: remove_unsafe_def py_replace1_remove_set)

lemma set_tl_subset: "set (tl xs) \<subseteq> set xs"
  by (cases xs) auto

lemma before_first_subset: "set (before_first c s) \<subseteq> set s"
  unfolding before_first_def using set_takeWhileD by fastforce

lemma after_first_subset: "set (after_first c s) \<subseteq> set s"
  unfolding after_first_def using set_tl_subset set_dropWhileD by fastforce

lemma split_scheme_rest_subset: "set (snd (split_scheme url)) \<subseteq> set url"
  using after_first_subset by (simp add: split_scheme_def)

lemma split_netloc_rest_subset:
  assumes "split_netloc lib url = Inr (nl, rest)"
  shows "set rest \<subseteq> set url"
proof -
  have "set (dropWhile (\<lambda>c. \<not> netloc_delim c) (drop 2 url)) \<subseteq> set url"
    using set_dropWhileD set_drop_subset by fastforce
  then show ?thesis
    using assms by (auto simp: split_netloc_def splitnetloc2_def split: if_splits)
qed

lemma before_first_absent: "c \<notin> set u \<Longrightarrow> before_first c u = u"
  by (auto simp: before_first_def takeWhile_eq_all_conv)

lemma takeWhile_takeWhile_conj: "takeWhile P (takeWhile Q xs) = takeWhile (\<lambda>x. Q x \<and> P x) xs"
  by (induction xs) auto

lemma path_part_before: "before_first QMARK (before_first HASH u) = path_part u"
  by (simp add: before_first_def takeWhile_takeWhile_conj path_part_def)

lemma split_view_eq:
  "split_view lib url =
     (case split_netloc lib (snd (split_scheme (remove_unsafe (py_lstrip_chars [0 ..< 0x21] url)))) of
        Inl e \<Rightarrow> None
      | Inr (nl, u4) \<Rightarrow>
          if checknetloc_error lib nl then None
          else Some (fst (split_scheme (remove_unsafe (py_lstrip_chars [0 ..< 0x21] url))), path_part u4))"
  unfolding path_part_before [symmetric]
  by (auto simp: split_view_def urlsplit_def Let_def before_first_absent
      split: sum.splits prod.splits if_splits)

lemma path_part_subset: "set (path_part u) \<subseteq> set u"
  unfolding path_part_def using set_takeWhileD by fastforce

lemma split_view_path_subset:
  assumes "split_view lib url = Some (sch, p)"
  shows "set p \<subseteq> set url - {0x09, 0x0A, 0x0D}"
proof -
  define u2 where "u2 = remove_unsafe (py_lstrip_chars [0 ..< 0x21] url)"
  have "set (py_lstrip_chars [0 ..< 0x21] url) \<subseteq> set url"
    unfolding py_lstrip_chars_def using set_dropWhileD by fastforce
  then have u2: "set u2 \<subseteq> set url - {0x09, 0x0A, 0x0D}"
    unfolding u2_def remove_unsafe_set by blast
  from assms obtain nl u4 where nl: "split_netloc lib (snd (split_scheme u2)) = Inr (nl, u4)"
    and p: "p = path_part u4"
    by (auto simp: split_view_eq u2_def split: sum.splits if_splits)
  have "set p \<subseteq> set u4"
    using p path_part_subset by simp
  also have "\<dots> \<subseteq> set (snd (split_scheme u2))"
    using nl by (rule split_netloc_rest_subset)
  also have "\<dots> \<subseteq> set u2"
    by (rule split_scheme_rest_subset)
  finally show ?thesis
    using u2 by blast
qed

lemma parsed_path_eq:
  "parsed_path lib url =
     (case split_view lib url of
        None \<Rightarrow> None
      | Some (sch, p) \<Rightarrow>
          Some (if sch \<in> set uses_params \<and> SEMICOLON \<in> set p then fst (splitparams p) else p))"
  by (auto simp: parsed_path_def split_view_def urlparse_def split: sum.splits prod.splits)

lemma last_segment_subset: "set (last_segment p) \<subseteq> set p"
proof -
  have "set (takeWhile (\<lambda>c. c \<noteq> SLASH) (rev p)) \<subseteq> set (rev p)"
    using set_takeWhileD by fastforce
  then show ?thesis by (simp add: last_segment_def)
qed

lemma upto_last_slash_subset: "set (upto_last_slash p) \<subseteq> set p"
proof -
  have "set (dropWhile (\<lambda>c. c \<noteq> SLASH) (rev p)) \<subseteq> set (rev p)"
    using set_dropWhileD by fastforce
  then show ?thesis by (simp add: upto_last_slash_def)
qed

lemma splitparams_path_subset: "set (fst (splitparams p)) \<subseteq> set p"
  using before_first_subset [of SEMICOLON p] before_first_subset [of SEMICOLON "last_segment p"]
    last_segment_subset [of p] upto_last_slash_subset [of p]
  by (auto simp: splitparams_def)

lemma parsed_path_no_newline:
  assumes "parsed_path lib url = Some p"
  shows "0x0A \<notin> set p"
proof -
  from assms obtain sch p0 where sv: "split_view lib url = Some (sch, p0)"
    and p: "p = (if sch \<in> set uses_params \<and> SEMICOLON \<in> set p0 then fst (splitparams p0) else p0)"
    by (auto simp: parsed_path_eq split: option.splits)
  have "set p \<subseteq> set p0"
    using p splitparams_path_subset [of p0] by (simp split: if_splits)
  then show ?thesis
    using split_view_path_subset [OF sv] by blast
qed

lemma extract_handle_by_path:
  "extract_handle_from_url lib url =
     (if url = [] then None
      else case parsed_path lib url of
             None \<Rightarrow> None
           | Some p \<Rightarrow> (if nonempty_segments p = [] then None
                        else Some (remove_html_suffix (last (nonempty_segments p)))))"
proof (cases "url = []")
  case True
  then show ?thesis by (simp add: extract_handle_from_url_def)
next
  case False
  show ?thesis
  proof (cases "parsed_path lib url")
    case None
    then show ?thesis
      using False by (simp add: extract_handle_from_url_def parsed_path_def split: sum.splits)
  next
    case (Some p)
    then obtain r where r: "urlparse lib url = Inr r" and pr: "path r = p"
      by (auto simp: parsed_path_def split: sum.splits)
    have nonl: "0x0A \<notin> set p"
      using Some by (rule parsed_path_no_newline)
    have seg: "nonempty_segments p \<noteq> [] \<Longrightarrow> 0x0A \<notin> set (last (nonempty_segments p))"
    proof -
      assume ne: "nonempty_segments p \<noteq> []"
      then have "last (nonempty_segments p) \<in> set (nonempty_segments p)"
        by (rule last_in_set)
      then have "last (nonempty_segments p) \<in> set (py_split1 SLASH p)"
        by (simp add: nonempty_segments_def)
      then have "set (last (nonempty_segments p)) \<subseteq> set p"
        by (rule set_py_split1)
      then show ?thesis using nonl by blast
    qed
    show ?thesis
      using False Some r pr seg
      by (simp add: extract_handle_from_url_def segments_strip re_sub_html_no_newline)
  qed
qed

lemma lstrip_append_delim:
  assumes "c = QMARK \<or> c = HASH"
  shows "py_lstrip_chars [0 ..< 0x21] (url @ c # t) = py_lstrip_chars [0 ..< 0x21] url @ c # t"
  unfolding py_lstrip_chars_def using assms by (intro dropWhile_append3) auto

lemma remove_unsafe_append_delim:
  assumes "c = QMARK \<or> c = HASH"
  shows "remove_unsafe (u @ c # t) = remove_unsafe u @ c # remove_unsafe t"
  using assms by (auto simp: remove_unsafe_def replace1_remove_filter)

lemma split_scheme_append_delim:
  assumes "c = QMARK \<or> c = HASH"
  shows "split_scheme (u @ c # t) = (fst (split_scheme u), snd (split_scheme u) @ c # t)"
proof (cases "COLON \<in> set u")
  case True
  then have ne: "u \<noteq> []" by auto
  have bf: "before_first COLON (u @ c # t) = before_first COLON u"
    unfolding before_first_def using True by (intro takeWhile_append1) auto
  have dne: "dropWhile (\<lambda>x. x \<noteq> COLON) u \<noteq> []"
    using True by (simp add: dropWhile_eq_Nil_conv)
  have "dropWhile (\<lambda>x. x \<noteq> COLON) (u @ c # t) = dropWhile (\<lambda>x. x \<noteq> COLON) u @ c # t"
    using True by (intro dropWhile_append1) auto
  then have af: "after_first COLON (u @ c # t) = after_first COLON u @ c # t"
    using dne by (simp add: after_first_def)
  show ?thesis
    using True ne by (simp add: split_scheme_def bf af)
next
  case False
  have "\<not> is_scheme_char c"
    using assms by (auto simp: is_scheme_char_def)
  moreover have "takeWhile (\<lambda>x. x \<noteq> COLON) (u @ c # t) = u @ takeWhile (\<lambda>x. x \<noteq> COLON) (c # t)"
    using False by (intro takeWhile_append2) auto
  then have "c \<in> set (before_first COLON (u @ c # t))"
    unfolding before_first_def using assms by auto
  ultimately have "\<not> list_all is_scheme_char (before_first COLON (u @ c # t))"
    by (auto simp: list_all_iff)
  then show ?thesis
    using False by (simp add: split_scheme_def)
qed

lemma take2_append_delim:
  assumes "c = QMARK \<or> c = HASH"
  shows "take 2 (r @ c # t) = [SLASH, SLASH] \<longleftrightarrow> take 2 r = [SLASH, SLASH]"
proof (cases r)
  case Nil
  then show ?thesis using assms by (auto simp: numeral_2_eq_2)
next
  case (Cons a r')
  then show ?thesis using assms by (cases r') (auto simp: numeral_2_eq_2)
qed

lemma split_netloc_append_delim:
  assumes "c = QMARK \<or> c = HASH"
  shows "split_netloc lib (r @ c # t) =
     (case split_netloc lib r of Inl e \<Rightarrow> Inl e | Inr (nl, rest) \<Rightarrow> Inr (nl, rest @ c # t))"
proof (cases "take 2 r = [SLASH, SLASH]")
  case True
  then have len: "2 \<le> length r"
    by (cases r; cases "tl r") (auto simp: numeral_2_eq_2)
  then have d: "drop 2 (r @ c # t) = drop 2 r @ c # t" by simp
  have delim: "netloc_delim c" using assms by (auto simp: netloc_delim_def)
  have tw: "takeWhile (\<lambda>c. \<not> netloc_delim c) (drop 2 r @ c # t) = takeWhile (\<lambda>c. \<not> netloc_delim c) (drop 2 r)"
    using delim by (intro takeWhile_tail) simp
  have dw: "dropWhile (\<lambda>c. \<not> netloc_delim c) (drop 2 r @ c # t) = dropWhile (\<lambda>c. \<not> netloc_delim c) (drop 2 r) @ c # t"
    using delim by (intro dropWhile_append3) simp
  show ?thesis
    using True take2_append_delim [OF assms, of r t]
    by (simp add: split_netloc_def splitnetloc2_def d tw dw)
next
  case False
  then show ?thesis
    using take2_append_delim [OF assms, of r t] by (simp add: split_netloc_def)
qed

lemma path_part_append_delim:
  assumes "c = QMARK \<or> c = HASH"
  shows "path_part (r @ c # t) = path_part r"
  unfolding path_part_def using assms by (intro takeWhile_tail) auto

lemma split_view_append_delim:
  assumes "c = QMARK \<or> c = HASH"
  shows "split_view lib (url @ c # t) = split_view lib url"
  by (simp add: split_view_eq lstrip_append_delim [OF assms] remove_unsafe_append_delim [OF assms]
      split_scheme_append_delim [OF assms] split_netloc_append_delim [OF assms]
      path_part_append_delim [OF assms] split: sum.splits)

lemma parsed_path_append_delim:
  assumes "c = QMARK \<or> c = HASH"
  shows "parsed_path lib (url @ c # t) = parsed_path lib url"
  by (simp add: parsed_path_eq split_view_append_delim [OF assms])

lemma parsed_path_empty: "parsed_path lib [] = Some []"
  by (simp add: parsed_path_eq split_view_eq py_lstrip_chars_def remove_unsafe_def py_replace1_def
      split_scheme_def split_netloc_def checknetloc_error_def path_part_def)

lemma extract_handle_append_delim:
  assumes "c = QMARK \<or> c = HASH"
  shows "extract_handle_from_url lib (url @ c # t) = extract_handle_from_url lib url"
proof (cases "url = []")
  case True
  have "parsed_path lib ([] @ c # t) = Some []"
    by (simp only: parsed_path_append_delim [OF assms] parsed_path_empty)
  then show ?thesis
    using True by (simp add: extract_handle_by_path nonempty_segments_def)
next
  case False
  then show ?thesis
    by (simp add: extract_handle_by_path parsed_path_append_delim [OF assms])
qed

lemma extract_handle_example1:
  "extract_handle_from_url lib (U ''https://x.com/a/b/tacori.html'') = Some (U ''tacori'')"
  by (simp add: extract_handle_from_url_def urlparse_def urlsplit_def split_netloc_def
      splitnetloc2_def split_scheme_def before_first_def after_first_def remove_unsafe_def
      py_replace1_def py_lstrip_chars_def bracket_error_def checknetloc_error_def
      netloc_delim_def is_ascii_alpha_def is_scheme_char_def ascii_lower_def uses_params_def
      py_strip_chars_def strip_by_def re_sub_html_def)

lemma extract_handle_example2:
  "extract_handle_from_url lib (U ''https://x.com/a/b/tacori.html/'') = Some (U ''tacori'')"
  by (simp add: extract_handle_from_url_def urlparse_def urlsplit_def split_netloc_def
      splitnetloc2_def split_scheme_def before_first_def after_first_def remove_unsafe_def
      py_replace1_def py_lstrip_chars_def bracket_error_def checknetloc_error_def
      netloc_delim_def is_ascii_alpha_def is_scheme_char_def ascii_lower_def uses_params_def
      py_strip_chars_def strip_by_def re_sub_html_def)

lemma extract_handle_example3:
  "extract_handle_from_url lib (U ''https://x.com'') = None"
  by (simp add: extract_handle_from_url_def urlparse_def urlsplit_def split_netloc_def
      splitnetloc2_def split_scheme_def before_first_def after_first_def remove_unsafe_def
      py_replace1_def py_lstrip_chars_def bracket_error_def checknetloc_error_def
      netloc_delim_def is_ascii_alpha_def is_scheme_char_def ascii_lower_def uses_params_def
      py_strip_chars_def strip_by_def re_sub_html_def)

text \<open>
  C1, as the code has it. \<open>parsed_path lib url\<close> is the path component that \<^verbatim>\<open>urlparse\<close>
  returns, or \<open>None\<close> when \<^verbatim>\<open>urlparse\<close> raises \<^verbatim>\<open>ValueError\<close> (the exception handler of
  the extractor then returns null). For every URL string the extractor returns null when
  the URL is empty, when the parser rejects it, or when its path has no non-empty segment;
  otherwise it returns the last non-empty segment of the path without a final \<^verbatim>\<open>.html\<close>.
  Appending a query string (\<^verbatim>\<open>?\<close>...) or a fragment (\<^verbatim>\<open>#\<close>...) to any URL does not
  change the result. The four examples of the specification hold.
\<close>

theorem extract_handle_last_segment:
  "extract_handle_from_url lib url =
     (if url = [] then None
      else case parsed_path lib url of
             None \<Rightarrow> None
           | Some p \<Rightarrow> (if nonempty_segments p = [] then None
                        else Some (remove_html_suffix (last (nonempty_segments p)))))
   \<and> (c = QMARK \<or> c = HASH
        \<longrightarrow> extract_handle_from_url lib (url @ c # t) = extract_handle_from_url lib url)
   \<and> extract_handle_from_url lib (U ''https://x.com/a/b/tacori.html'') = Some (U ''tacori'')
   \<and> extract_handle_from_url lib (U ''https://x.com/a/b/tacori.html/'') = Some (U ''tacori'')
   \<and> extract_handle_from_url lib (U ''https://x.com'') = None
   \<and> extract_handle_from_url lib [] = None"
  using extract_handle_by_path [of lib url] extract_handle_append_delim [of c lib url t]
    extract_handle_example1 [of lib] extract_handle_example2 [of lib] extract_handle_example3 [of lib]
  by (simp add: extract_handle_from_url_def)

theorem extract_handle_last_segment_witness:
  "extract_handle_from_url \<lparr>nfkc = (\<lambda>s. s), bracketed_host_ok = (\<lambda>h. True)\<rparr>
     (U ''https://x.com/a/b/tacori.html'' @ QMARK # U ''page=2#top'') = Some (U ''tacori'')"
proof -
  note inst = extract_handle_last_segment
    [of "\<lparr>nfkc = (\<lambda>s. s), bracketed_host_ok = (\<lambda>h. True)\<rparr>" "U ''https://x.com/a/b/tacori.html''"
        QMARK "U ''page=2#top''"]
  from inst have same: "extract_handle_from_url \<lparr>nfkc = (\<lambda>s. s), bracketed_host_ok = (\<lambda>h. True)\<rparr>
     (U ''https://x.com/a/b/tacori.html'' @ QMARK # U ''page=2#top'')
     = extract_handle_from_url \<lparr>nfkc = (\<lambda>s. s), bracketed_host_ok = (\<lambda>h. True)\<rparr>
     (U ''https://x.com/a/b/tacori.html'')"
    by blast
  from inst have "extract_handle_from_url \<lparr>nfkc = (\<lambda>s. s), bracketed_host_ok = (\<lambda>h. True)\<rparr>
     (U ''https://x.com/a/b/tacori.html'') = Some (U ''tacori'')"
    by blast
  with same show ?thesis
    by (simp only:)
qed

text \<open>
  C1 as the specification words it promises a segment for every URL with a non-empty
  path segment. The URL \<^verbatim>\<open>http://[/a/b.html\<close> has the scheme \<^verbatim>\<open>http\<close>, the network location
  \<^verbatim>\<open>[\<close> and the path \<^verbatim>\<open>/a/b.html\<close>, whose last non-empty segment is \<^verbatim>\<open>b.html\<close>; the
  parser raises \<^verbatim>\<open>ValueError\<close> on the unmatched bracket and the extractor returns null.
\<close>

theorem extract_handle_unparseable_counterexample:
  "split_scheme (U ''http://[/a/b.html'') = (U ''http'', U ''//[/a/b.html'')
   \<and> splitnetloc2 (U ''//[/a/b.html'') = (U ''['', U ''/a/b.html'')
   \<and> remove_html_suffix (last (nonempty_segments (U ''/a/b.html''))) = U ''b''
   \<and> urlparse \<lparr>nfkc = (\<lambda>s. s), bracketed_host_ok = (\<lambda>h. True)\<rparr> (U ''http://[/a/b.html'') = Inl ValueError
   \<and> extract_handle_from_url \<lparr>nfkc = (\<lambda>s. s), bracketed_host_ok = (\<lambda>h. True)\<rparr>
        (U ''http://[/a/b.html'') = None"
  by (simp add: extract_handle_from_url_def urlparse_def urlsplit_def split_netloc_def
      splitnetloc2_def split_scheme_def before_first_def after_first_def remove_unsafe_def
      py_replace1_def py_lstrip_chars_def bracket_error_def
      netloc_delim_def is_ascii_alpha_def is_scheme_char_def ascii_lower_def
      nonempty_segments_def remove_html_suffix_def)


section \<open>Properties of the content merger\<close>

lemma copy_categories_eq:
  assumes "\<forall>a\<in>set cats. a < length h"
  shows "copy_categories h cats = (h @ map (\<lambda>a. h ! a) cats, [length h ..< length h + length cats])"
  using assms
proof (induction cats arbitrary: h)
  case Nil
  then show ?case by simp
next
  case (Cons c rest)
  have c: "c < length h" and rest: "\<forall>a\<in>set rest. a < length h"
    using Cons.prems by simp_all
  have ih: "copy_categories (h @ [h ! c]) rest =
      ((h @ [h ! c]) @ map (\<lambda>a. (h @ [h ! c]) ! a) rest,
       [length (h @ [h ! c]) ..< length (h @ [h ! c]) + length rest])"
    using rest by (intro Cons.IH) auto
  have same: "map (\<lambda>a. (h @ [h ! c]) ! a) rest = map (\<lambda>a. h ! a) rest"
    using rest by (simp add: nth_append)
  have "[length h ..< length h + length (c # rest)]
          = length h # [Suc (length h) ..< length h + length (c # rest)]"
    by (rule upt_conv_Cons) simp
  moreover have "length (h @ [h ! c]) = Suc (length h)"
    and "length (h @ [h ! c]) + length rest = length h + length (c # rest)"
    by simp_all
  ultimately have addrs: "[length h ..< length h + length (c # rest)]
          = length h # [length (h @ [h ! c]) ..< length (h @ [h ! c]) + length rest]"
    by (simp only:)
  have "copy_categories h (c # rest) =
      (fst (copy_categories (h @ [h ! c]) rest), length h # snd (copy_categories (h @ [h ! c]) rest))"
    by (simp add: alloc_def split: prod.splits)
  also have "\<dots> = (h @ map (\<lambda>a. h ! a) (c # rest), [length h ..< length h + length (c # rest)])"
    unfolding ih addrs using same by simp
  finally show ?case .
qed

lemma update_loop_step:
  assumes "a < length h"
  shows "\<exists>u' n'. update_loop cm i (a # rest) (h, u, n) =
           update_loop cm (Suc i) rest (h[a := (if i = 0 then h ! a else merged cm (h ! a))], u', n')"
proof (cases "i = 0")
  case True
  then have "update_loop cm i (a # rest) (h, u, n) =
           update_loop cm (Suc i) rest (h[a := (if i = 0 then h ! a else merged cm (h ! a))], u, n)"
    by simp
  then show ?thesis by blast
next
  case False
  show ?thesis
  proof (cases "map_of cm (dict_get (h ! a) (U ''Handle'') [])")
    case None
    then have "update_loop cm i (a # rest) (h, u, n) =
           update_loop cm (Suc i) rest (h[a := (if i = 0 then h ! a else merged cm (h ! a))], u, n + 1)"
      using False by (simp add: merged_def)
    then show ?thesis by blast
  next
    case (Some c)
    then have "update_loop cm i (a # rest) (h, u, n) =
           update_loop cm (Suc i) rest (h[a := (if i = 0 then h ! a else merged cm (h ! a))], u + 1, n)"
      using False assms by (simp add: merged_def merge_record_def dict_set_def Let_def)
    then show ?thesis by blast
  qed
qed

lemma update_loop_effect:
  assumes "distinct as" "\<forall>a\<in>set as. a < length h"
  shows "length (fst (update_loop cm i as (h, u, n))) = length h
       \<and> (\<forall>a. a \<notin> set as \<longrightarrow> fst (update_loop cm i as (h, u, n)) ! a = h ! a)
       \<and> (\<forall>j<length as. fst (update_loop cm i as (h, u, n)) ! (as ! j)
            = (if i + j = 0 then h ! (as ! j) else merged cm (h ! (as ! j))))"
  using assms
proof (induction as arbitrary: i h u n)
  case Nil
  then show ?case by simp
next
  case (Cons a rest)
  define x where "x = (if i = 0 then h ! a else merged cm (h ! a))"
  define h1 where "h1 = h[a := x]"
  have a: "a < length h" and notin: "a \<notin> set rest" and dist: "distinct rest"
    and rest: "\<forall>b\<in>set rest. b < length h1"
    using Cons.prems by (simp_all add: h1_def)
  obtain u' n' where step: "update_loop cm i (a # rest) (h, u, n) = update_loop cm (Suc i) rest (h1, u', n')"
    using update_loop_step [OF a, of cm i rest u n] unfolding h1_def x_def by blast
  define R where "R = fst (update_loop cm (Suc i) rest (h1, u', n'))"
  have res: "fst (update_loop cm i (a # rest) (h, u, n)) = R"
    by (simp only: step R_def)
  have ih: "length R = length h1 \<and> (\<forall>b. b \<notin> set rest \<longrightarrow> R ! b = h1 ! b)
       \<and> (\<forall>j<length rest. R ! (rest ! j) = (if Suc i + j = 0 then h1 ! (rest ! j) else merged cm (h1 ! (rest ! j))))"
    unfolding R_def by (rule Cons.IH [OF dist rest])
  have len: "length R = length h"
    using ih by (simp add: h1_def)
  have frame: "R ! b = h ! b" if "b \<notin> set (a # rest)" for b
    using that ih by (simp add: h1_def)
  have at: "R ! ((a # rest) ! j)
            = (if i + j = 0 then h ! ((a # rest) ! j) else merged cm (h ! ((a # rest) ! j)))"
    if j: "j < length (a # rest)" for j
  proof (cases j)
    case 0
    have "R ! a = h1 ! a"
      using ih notin by blast
    then show ?thesis
      using 0 a by (simp add: h1_def x_def)
  next
    case (Suc j')
    then have j': "j' < length rest" using j by simp
    then have ne: "rest ! j' \<noteq> a" using notin nth_mem by metis
    have "R ! (rest ! j') = merged cm (h1 ! (rest ! j'))"
      using ih j' by simp
    then show ?thesis
      using Suc ne by (simp add: h1_def)
  qed
  show ?case
    unfolding res using len frame at by blast
qed

lemma update_shopify_categories_fields:
  "shopify_categories (update_shopify_categories s) = shopify_categories s
   \<and> content_map (update_shopify_categories s) = content_map s
   \<and> plp_content (update_shopify_categories s) = plp_content s"
  by (simp add: update_shopify_categories_def Let_def split: prod.splits)

lemma update_shopify_categories_store:
  assumes wf: "\<forall>a\<in>set (shopify_categories s). a < length (heap s)"
  shows "updated_categories (update_shopify_categories s)
           = [length (heap s) ..< length (heap s) + length (shopify_categories s)]"
    and "length (heap (update_shopify_categories s)) = length (heap s) + length (shopify_categories s)"
    and "\<And>a. a < length (heap s) \<Longrightarrow> heap (update_shopify_categories s) ! a = heap s ! a"
    and "\<And>i. i < length (shopify_categories s) \<Longrightarrow>
           heap (update_shopify_categories s) ! (length (heap s) + i)
             = (if i = 0 then heap s ! (shopify_categories s ! i)
                else merged (content_map s) (heap s ! (shopify_categories s ! i)))"
proof -
  define h where "h = heap s"
  define cats where "cats = shopify_categories s"
  define as where "as = [length h ..< length h + length cats]"
  define h1 where "h1 = h @ map (\<lambda>a. h ! a) cats"
  have copy: "copy_categories h cats = (h1, as)"
    unfolding h1_def as_def using wf by (intro copy_categories_eq) (simp add: h_def cats_def)
  define R where "R = fst (update_loop (content_map s) 0 as (h1, 0, 0))"
  have heap': "heap (update_shopify_categories s) = R"
    and upd: "updated_categories (update_shopify_categories s) = as"
    using copy by (simp_all add: update_shopify_categories_def h_def [symmetric] cats_def [symmetric]
        R_def Let_def split: prod.splits)
  have "distinct as" and "\<forall>a\<in>set as. a < length h1"
    by (simp_all add: as_def h1_def)
  then have eff: "length R = length h1 \<and> (\<forall>a. a \<notin> set as \<longrightarrow> R ! a = h1 ! a)
       \<and> (\<forall>j<length as. R ! (as ! j) = (if 0 + j = 0 then h1 ! (as ! j) else merged (content_map s) (h1 ! (as ! j))))"
    unfolding R_def by (rule update_loop_effect)
  show "updated_categories (update_shopify_categories s)
           = [length (heap s) ..< length (heap s) + length (shopify_categories s)]"
    using upd by (simp add: as_def h_def cats_def)
  show "length (heap (update_shopify_categories s)) = length (heap s) + length (shopify_categories s)"
    using eff by (simp add: heap' h1_def h_def cats_def)
  show "heap (update_shopify_categories s) ! a = heap s ! a" if "a < length (heap s)" for a
  proof -
    have "a \<notin> set as" using that by (simp add: as_def h_def)
    then have "R ! a = h1 ! a" using eff by blast
    then show ?thesis using that by (simp add: heap' h1_def h_def nth_append)
  qed
  show "heap (update_shopify_categories s) ! (length (heap s) + i)
             = (if i = 0 then heap s ! (shopify_categories s ! i)
                else merged (content_map s) (heap s ! (shopify_categories s ! i)))"
    if "i < length (shopify_categories s)" for i
  proof -
    have i: "i < length as" using that by (simp add: as_def cats_def)
    have asi: "as ! i = length h + i" using that by (simp add: as_def cats_def)
    have copyval: "h1 ! (length h + i) = h ! (cats ! i)"
      using that by (simp add: h1_def cats_def nth_append)
    have "R ! (as ! i) = (if i = 0 then h1 ! (as ! i) else merged (content_map s) (h1 ! (as ! i)))"
      using eff i by simp
    then have "R ! (length h + i) = (if i = 0 then h ! (cats ! i) else merged (content_map s) (h ! (cats ! i)))"
      unfolding asi copyval .
    then show ?thesis
      by (simp add: heap' h_def cats_def)
  qed
qed

lemma merged_no_match:
  "map_of cm (dict_get r (U ''Handle'') []) = None \<Longrightarrow> merged cm r = r"
  by (simp add: merged_def)

lemma merged_match:
  "map_of cm (dict_get r (U ''Handle'') []) = Some c \<Longrightarrow> merged cm r = merge_record c r"
  by (simp add: merged_def)

lemma merge_record_other:
  assumes "k \<noteq> U ''Title''" "k \<noteq> U ''Body HTML''" "k \<noteq> METAFIELD"
  shows "map_of (merge_record c r) k = map_of r k"
  using assms by (simp add: merge_record_def Let_def update_conv')

lemma merge_record_title:
  "map_of (merge_record c r) (U ''Title'') = (if title c \<noteq> [] then Some (title c) else map_of r (U ''Title''))"
  by (simp add: merge_record_def Let_def update_conv' METAFIELD_def)

lemma merge_record_body:
  "map_of (merge_record c r) (U ''Body HTML'') =
     (if description c \<noteq> []
      then Some (create_html_content (title c) (subheading c) (description c) (content_under_listing c))
      else map_of r (U ''Body HTML''))"
  by (simp add: merge_record_def Let_def update_conv' METAFIELD_def)

lemma metafield_distinct: "METAFIELD \<noteq> U ''Title''" "METAFIELD \<noteq> U ''Body HTML''"
  by (simp_all add: METAFIELD_def)

lemma merge_record_metafield:
  "map_of (merge_record c r) METAFIELD = (if subheading c \<noteq> [] then Some (subheading c) else map_of r METAFIELD)"
  using metafield_distinct by (simp add: merge_record_def Let_def update_conv')

lemma demo_script_wf: "\<forall>a\<in>set (shopify_categories demo_script). a < length (heap demo_script)"
  by (simp add: demo_script_def)

text \<open>
  C2. Let a state of the script be given in which every destination record is an object
  of the store. For a position \<open>i\<close> other than zero, compare the record at position \<open>i\<close>
  of the loaded sequence before the merge (\<open>old\<close>) with the record at position \<open>i\<close> of the
  updated sequence after it (\<open>new\<close>). If the handle of \<open>old\<close> has no entry in the
  content map, \<open>new\<close> is the same dictionary, item for item. If it has the entry \<open>c\<close>, an
  empty title, description or subheading of \<open>c\<close> leaves the title, the body HTML or the
  subheading metafield as it was, and every other attribute is as it was.
\<close>

theorem update_shopify_categories_frame:
  assumes "\<forall>a\<in>set (shopify_categories s). a < length (heap s)"
    and "0 < i" and "i < length (shopify_categories s)"
  shows "let s' = update_shopify_categories s;
             old = heap s ! (shopify_categories s ! i);
             new = heap s' ! (updated_categories s' ! i)
         in (case map_of (content_map s) (dict_get old (U ''Handle'') []) of
               None \<Rightarrow> new = old
             | Some c \<Rightarrow>
                 (title c = [] \<longrightarrow> map_of new (U ''Title'') = map_of old (U ''Title''))
               \<and> (description c = [] \<longrightarrow> map_of new (U ''Body HTML'') = map_of old (U ''Body HTML''))
               \<and> (subheading c = [] \<longrightarrow> map_of new METAFIELD = map_of old METAFIELD)
               \<and> (\<forall>k. k \<noteq> U ''Title'' \<and> k \<noteq> U ''Body HTML'' \<and> k \<noteq> METAFIELD
                      \<longrightarrow> map_of new k = map_of old k))"
proof -
  define old where "old = heap s ! (shopify_categories s ! i)"
  define new where "new = heap (update_shopify_categories s) ! (updated_categories (update_shopify_categories s) ! i)"
  have "updated_categories (update_shopify_categories s) ! i = length (heap s) + i"
    using assms(3) by (simp add: update_shopify_categories_store(1) [OF assms(1)])
  then have new: "new = merged (content_map s) old"
    using assms(2) update_shopify_categories_store(4) [OF assms(1) assms(3)]
    by (simp add: new_def old_def)
  have "case map_of (content_map s) (dict_get old (U ''Handle'') []) of
               None \<Rightarrow> new = old
             | Some c \<Rightarrow>
                 (title c = [] \<longrightarrow> map_of new (U ''Title'') = map_of old (U ''Title''))
               \<and> (description c = [] \<longrightarrow> map_of new (U ''Body HTML'') = map_of old (U ''Body HTML''))
               \<and> (subheading c = [] \<longrightarrow> map_of new METAFIELD = map_of old METAFIELD)
               \<and> (\<forall>k. k \<noteq> U ''Title'' \<and> k \<noteq> U ''Body HTML'' \<and> k \<noteq> METAFIELD
                      \<longrightarrow> map_of new k = map_of old k)"
  proof (cases "map_of (content_map s) (dict_get old (U ''Handle'') [])")
    case None
    then show ?thesis
      by (simp add: new merged_no_match)
  next
    case (Some c)
    then have "new = merge_record c old"
      by (simp add: new merged_match)
    then show ?thesis
      using Some merge_record_other [of _ c old] merge_record_title [of c old]
        merge_record_body [of c old] merge_record_metafield [of c old]
      by simp
  qed
  then show ?thesis
    unfolding Let_def old_def new_def .
qed

theorem update_shopify_categories_frame_witness:
  "heap (update_shopify_categories demo_script) ! (updated_categories (update_shopify_categories demo_script) ! 2)
     = [(U ''Handle'', U ''verragio''), (U ''Title'', U ''Verragio'')]
   \<and> map_of (heap (update_shopify_categories demo_script)
              ! (updated_categories (update_shopify_categories demo_script) ! 1)) (U ''Handle'')
       = Some (U ''tacori'')
   \<and> map_of (heap (update_shopify_categories demo_script)
              ! (updated_categories (update_shopify_categories demo_script) ! 1)) METAFIELD
       = None"
proof -
  have two: "(0::nat) < 2" "2 < length (shopify_categories demo_script)"
    and one: "(0::nat) < 1" "1 < length (shopify_categories demo_script)"
    by (simp_all add: demo_script_def)
  have "heap demo_script ! (shopify_categories demo_script ! 2)
          = [(U ''Handle'', U ''verragio''), (U ''Title'', U ''Verragio'')]"
    and "heap demo_script ! (shopify_categories demo_script ! 1)
          = [(U ''Handle'', U ''tacori''), (U ''Title'', U ''Tacori'')]"
    and "content_map demo_script = [(U ''tacori'', demo_content)]"
    and "subheading demo_content = []"
    by (simp_all add: demo_script_def demo_content_def)
  then show ?thesis
    using update_shopify_categories_frame [OF demo_script_wf two]
      update_shopify_categories_frame [OF demo_script_wf one]
    by (simp add: Let_def dict_get_def METAFIELD_def)
qed

text \<open>
  C3. The record at position zero is skipped whatever the content map holds: after the
  merge, the first record of the updated sequence is equal to the first loaded record,
  for every sequence with at least one record.
\<close>

theorem update_shopify_categories_skips_first:
  assumes "\<forall>a\<in>set (shopify_categories s). a < length (heap s)"
    and "shopify_categories s \<noteq> []"
  shows "heap (update_shopify_categories s) ! (updated_categories (update_shopify_categories s) ! 0)
           = heap s ! (shopify_categories s ! 0)"
proof -
  have len: "0 < length (shopify_categories s)"
    using assms(2) by simp
  then have "updated_categories (update_shopify_categories s) ! 0 = length (heap s) + 0"
    by (simp add: update_shopify_categories_store(1) [OF assms(1)])
  then show ?thesis
    using update_shopify_categories_store(4) [OF assms(1) len] by simp
qed

text \<open>
  In the example state the first record has the handle \<^verbatim>\<open>tacori\<close>, for which the content
  map has a title and a description; its title is still \<^verbatim>\<open>Tacori\<close> after the merge.
\<close>

theorem update_shopify_categories_skips_first_witness:
  "map_of (content_map demo_script) (U ''tacori'') = Some demo_content
   \<and> title demo_content \<noteq> []
   \<and> heap (update_shopify_categories demo_script)
       ! (updated_categories (update_shopify_categories demo_script) ! 0)
     = [(U ''Handle'', U ''tacori''), (U ''Title'', U ''Tacori'')]"
proof -
  have "shopify_categories demo_script \<noteq> []"
    by (simp add: demo_script_def)
  from update_shopify_categories_skips_first [OF demo_script_wf this]
  show ?thesis
    by (simp add: demo_script_def demo_content_def)
qed

text \<open>
  C10. The merger works on copies. After \<^verbatim>\<open>update_shopify_categories\<close> the loaded
  sequence is the same list of objects, every object that existed before the call has the
  items it had (in particular every record of the loaded sequence), and the records of
  the updated sequence are objects created by the call.
\<close>

theorem update_shopify_categories_keeps_loaded:
  assumes "\<forall>a\<in>set (shopify_categories s). a < length (heap s)"
  shows "shopify_categories (update_shopify_categories s) = shopify_categories s
       \<and> (\<forall>a<length (heap s). heap (update_shopify_categories s) ! a = heap s ! a)
       \<and> (\<forall>a\<in>set (shopify_categories s). heap (update_shopify_categories s) ! a = heap s ! a)
       \<and> (\<forall>a\<in>set (updated_categories (update_shopify_categories s)). length (heap s) \<le> a)"
  using assms update_shopify_categories_store(3) [OF assms]
  by (simp add: update_shopify_categories_fields update_shopify_categories_store(1) [OF assms])

theorem update_shopify_categories_keeps_loaded_witness:
  "heap (update_shopify_categories demo_script) ! 1 = [(U ''Handle'', U ''tacori''), (U ''Title'', U ''Tacori'')]
   \<and> shopify_categories (update_shopify_categories demo_script) = [0, 1, 2]"
  using update_shopify_categories_keeps_loaded [OF demo_script_wf]
  by (simp add: demo_script_def)


section \<open>Properties of the loaders\<close>

lemma fold_update_lookup:
  "map_of (foldl (\<lambda>d c. if kept c then AList.update (dict_get c kc []) c d else d) data cs) k
     = last_kept kept kc data cs k"
proof (induction cs rule: rev_induct)
  case Nil
  then show ?case by (simp add: last_kept_def)
next
  case (snoc c cs)
  show ?case
  proof (cases "kept c \<and> dict_get c kc [] = k")
    case True
    have "filter (\<lambda>c. kept c \<and> dict_get c kc [] = k) (cs @ [c])
            = filter (\<lambda>c. kept c \<and> dict_get c kc [] = k) cs @ [c]"
      using True by simp
    then have "last_kept kept kc data (cs @ [c]) k = Some c"
      by (simp add: last_kept_def)
    then show ?thesis
      using True by (simp add: update_conv')
  next
    case False
    then have "filter (\<lambda>c. kept c \<and> dict_get c kc [] = k) (cs @ [c])
            = filter (\<lambda>c. kept c \<and> dict_get c kc [] = k) cs"
      by auto
    then have "last_kept kept kc data (cs @ [c]) k = last_kept kept kc data cs k"
      by (simp only: last_kept_def)
    then show ?thesis
      using False snoc by (auto simp: update_conv')
  qed
qed

lemma handle_rows_loop_eq:
  "handle_rows_loop rs data =
     (case clean_rows rs of
        Inl e \<Rightarrow> Inl e
      | Inr cs \<Rightarrow> Inr (foldl (\<lambda>d c. if kept_by_handle c
                                     then AList.update (dict_get c (U ''Handle'') []) c d else d) data cs))"
  by (induction rs arbitrary: data) (auto simp: kept_by_handle_def split: sum.splits)

lemma id_rows_loop_eq:
  "id_rows_loop rs data =
     (case clean_rows rs of
        Inl e \<Rightarrow> Inl e
      | Inr cs \<Rightarrow> Inr (foldl (\<lambda>d c. if kept_by_id c
                                     then AList.update (dict_get c (U ''ID'') []) c d else d) data cs))"
  by (induction rs arbitrary: data) (auto simp: kept_by_id_def split: sum.splits)

lemma categories_loop_fail:
  "clean_rows rs = Inl e \<Longrightarrow> categories_loop rs st = Inl e"
proof (induction rs arbitrary: st)
  case Nil
  then show ?case by simp
next
  case (Cons r rs)
  obtain h cats where st: "st = (h, cats)" by (cases st)
  show ?case
    using Cons unfolding st by (auto simp: alloc_def split: sum.splits)
qed

lemma plp_loop_fail:
  "clean_rows rs = Inl e \<Longrightarrow> plp_loop lib rs st = Inl e"
proof (induction rs arbitrary: st)
  case Nil
  then show ?case by simp
next
  case (Cons r rs)
  obtain entries cm where st: "st = (entries, cm)" by (cases st)
  show ?case
    using Cons unfolding st by (auto split: sum.splits option.splits)
qed

lemma url_rows_loop_fail:
  "clean_rows rs = Inl e \<Longrightarrow> fst (url_rows_loop lib rs data cm) = Inl e"
  by (induction rs arbitrary: data cm) (auto split: sum.splits option.splits)

lemmas eval_rows = open_text_def reader_rows_def dictreader_row_def dict_of_pairs_def clean_row_def
  py_strip_def strip_by_def py_isspace_def py_strip_chars_def py_replace1_def

lemma update_fresh: "k \<notin> fst ` set al \<Longrightarrow> AList.update k v al = al @ [(k, v)]"
  by (induction al) auto

lemma set_update_subset: "set (AList.update k v al) \<subseteq> insert (k, v) (set al)"
  by (induction al) auto

lemma set_foldl_update_subset:
  "set (foldl (\<lambda>d (k, v). AList.update k v d) acc kvs) \<subseteq> set acc \<union> set kvs"
proof (induction kvs arbitrary: acc)
  case Nil
  then show ?case by simp
next
  case (Cons kv kvs)
  obtain k v where kv: "kv = (k, v)" by (cases kv)
  have "set (foldl (\<lambda>d (k, v). AList.update k v d) (AList.update k v acc) kvs)
          \<subseteq> set (AList.update k v acc) \<union> set kvs"
    by (rule Cons.IH)
  then show ?case
    using set_update_subset [of k v acc] by (auto simp: kv)
qed

lemma set_foldl_pad_subset:
  "set (foldl (\<lambda>d key. AList.update (Some key) NoneCell d) acc ks)
     \<subseteq> set acc \<union> (\<lambda>key. (Some key, NoneCell)) ` set ks"
proof (induction ks arbitrary: acc)
  case Nil
  then show ?case by simp
next
  case (Cons key ks)
  have "set (foldl (\<lambda>d key. AList.update (Some key) NoneCell d) (AList.update (Some key) NoneCell acc) ks)
          \<subseteq> set (AList.update (Some key) NoneCell acc) \<union> (\<lambda>key. (Some key, NoneCell)) ` set ks"
    by (rule Cons.IH)
  then show ?case
    using set_update_subset [of "Some key" NoneCell acc] by auto
qed

lemma clean_row_loop_text:
  assumes "\<forall>p\<in>set items. \<exists>s. clean_value (snd p) = Inr s"
  shows "\<exists>cleaned. clean_row_loop items acc = Inr cleaned"
  using assms
proof (induction items arbitrary: acc)
  case Nil
  then show ?case by simp
next
  case (Cons item items)
  obtain k v where item: "item = (k, v)" by (cases item)
  from Cons.prems obtain s where s: "clean_value v = Inr s"
    by (auto simp: item)
  have "\<exists>cleaned. clean_row_loop items (AList.update (clean_field_name k) s acc) = Inr cleaned"
    using Cons.prems by (intro Cons.IH) simp
  then show ?case
    by (simp add: item s)
qed

lemma clean_row_loop_rest:
  assumes "\<forall>p\<in>set items. \<exists>s. clean_value (snd p) = Inr s" and "l \<noteq> []"
  shows "clean_row_loop (items @ [(k, RestCells l)]) acc = Inl AttributeError"
  using assms(1)
proof (induction items arbitrary: acc)
  case Nil
  then show ?case using assms(2) by simp
next
  case (Cons item items)
  obtain k' v where item: "item = (k', v)" by (cases item)
  from Cons.prems obtain s where s: "clean_value v = Inr s"
    by (auto simp: item)
  have "clean_row_loop (items @ [(k, RestCells l)]) (AList.update (clean_field_name k') s acc)
          = Inl AttributeError"
    using Cons.prems by (intro Cons.IH) simp
  then show ?case
    by (simp add: item s)
qed

lemma dict_of_zip_entries:
  assumes "p \<in> set (dict_of_pairs (zip (map Some fieldnames) (map Str r)))"
  shows "(\<exists>f. fst p = Some f) \<and> (\<exists>s. snd p = Str s)"
proof -
  obtain a b where p: "p = (a, b)" by (cases p)
  have "set (dict_of_pairs (zip (map Some fieldnames) (map Str r)))
          \<subseteq> set (zip (map Some fieldnames) (map Str r))"
    unfolding dict_of_pairs_def
    using set_foldl_update_subset [of "[]" "zip (map Some fieldnames) (map Str r)"] by simp
  then have mem: "(a, b) \<in> set (zip (map Some fieldnames) (map Str r))"
    using assms p by blast
  have "a \<in> set (map Some fieldnames)"
    using mem by (rule set_zip_leftD)
  moreover have "b \<in> set (map Str r)"
    using mem by (rule set_zip_rightD)
  ultimately show ?thesis
    unfolding p by auto
qed

lemma clean_row_long:
  assumes "length fieldnames < length r"
  shows "clean_row (dictreader_row fieldnames r) = Inl AttributeError"
proof -
  define d where "d = dict_of_pairs (zip (map Some fieldnames) (map Str r))"
  have entries: "\<forall>p\<in>set d. (\<exists>f. fst p = Some f) \<and> (\<exists>s. snd p = Str s)"
    unfolding d_def using dict_of_zip_entries by blast
  then have "None \<notin> fst ` set d"
    by force
  then have row: "dictreader_row fieldnames r = d @ [(None, RestCells (drop (length fieldnames) r))]"
    using assms by (simp add: dictreader_row_def d_def [symmetric] update_fresh)
  have strs: "\<forall>p\<in>set d. \<exists>s. clean_value (snd p) = Inr s"
    using entries by force
  have "drop (length fieldnames) r \<noteq> []"
    using assms by simp
  with strs show ?thesis
    unfolding clean_row_def row by (rule clean_row_loop_rest)
qed

lemma clean_row_not_long:
  assumes "length r \<le> length fieldnames"
  shows "\<exists>cleaned. clean_row (dictreader_row fieldnames r) = Inr cleaned"
proof -
  define d where "d = dict_of_pairs (zip (map Some fieldnames) (map Str r))"
  have entries: "\<forall>p\<in>set d. \<exists>s. snd p = Str s"
    unfolding d_def using dict_of_zip_entries by blast
  have "\<forall>p\<in>set (dictreader_row fieldnames r). \<exists>s. clean_value (snd p) = Inr s"
  proof
    fix p assume p: "p \<in> set (dictreader_row fieldnames r)"
    have "p \<in> set d \<or> snd p = NoneCell"
    proof (cases "length r < length fieldnames")
      case True
      then have "dictreader_row fieldnames r
          = foldl (\<lambda>d key. AList.update (Some key) NoneCell d) d (drop (length r) fieldnames)"
        by (simp add: dictreader_row_def d_def [symmetric] Let_def)
      then show ?thesis
        using p set_foldl_pad_subset [of d "drop (length r) fieldnames"] by auto
    next
      case False
      then have "dictreader_row fieldnames r = d"
        using assms by (simp add: dictreader_row_def d_def [symmetric] Let_def)
      then show ?thesis using p by simp
    qed
    then show "\<exists>s. clean_value (snd p) = Inr s"
      using entries by auto
  qed
  then show ?thesis
    unfolding clean_row_def by (rule clean_row_loop_text)
qed

lemma clean_rows_by_length:
  "if \<forall>r\<in>set rows. length r \<le> length fieldnames
   then \<exists>cs. clean_rows (map (dictreader_row fieldnames) rows) = Inr cs
   else clean_rows (map (dictreader_row fieldnames) rows) = Inl AttributeError"
proof (induction rows)
  case Nil
  then show ?case by simp
next
  case (Cons r rows)
  show ?case
  proof (cases "length r \<le> length fieldnames")
    case True
    then obtain c where "clean_row (dictreader_row fieldnames r) = Inr c"
      using clean_row_not_long by blast
    then show ?thesis
      using Cons True by (auto split: if_splits)
  next
    case False
    then have "clean_row (dictreader_row fieldnames r) = Inl AttributeError"
      by (intro clean_row_long) simp
    then show ?thesis
      using False by simp
  qed
qed

lemma clean_rows_of_file:
  "if no_long_row recs
   then \<exists>cs. clean_rows (reader_rows (open_text recs)) = Inr cs
   else clean_rows (reader_rows (open_text recs)) = Inl AttributeError"
proof (cases recs)
  case Nil
  then show ?thesis
    by (simp add: no_long_row_def open_text_def reader_rows_def)
next
  case (Cons fieldnames rest)
  define rows where "rows = filter (\<lambda>r. r \<noteq> []) (map (map universal_newlines) rest)"
  have rr: "reader_rows (open_text recs)
              = map (dictreader_row (map universal_newlines fieldnames)) rows"
    by (simp add: Cons open_text_def reader_rows_def rows_def)
  have "(\<forall>r\<in>set rows. length r \<le> length (map universal_newlines fieldnames))
          \<longleftrightarrow> no_long_row recs"
    by (auto simp: rows_def no_long_row_def Cons list_all_iff)
  then show ?thesis
    unfolding rr using clean_rows_by_length [of rows "map universal_newlines fieldnames"]
    by (simp split: if_splits)
qed

text \<open>
  C6, as the code has it. In a file where no row has more cells than the header, every
  row can be cleaned, and the loaders keyed by handle (\<^verbatim>\<open>load_shopify_data\<close>,
  \<^verbatim>\<open>load_csv_data\<close>) map each key to the last row that has it among the rows whose handle
  is neither empty nor the label \<^verbatim>\<open>Handle\<close>, and the loader keyed by ID (\<^verbatim>\<open>load_csv_file\<close>
  on a destination file) maps each key to the last row that has it among the rows whose ID
  is not empty: a row whose ID is the label \<^verbatim>\<open>ID\<close> is kept. A key that no kept row has is
  as it was before (absent, for the loaders that start empty). In a file where some row
  has more cells than the header, cleaning that row fails with \<^verbatim>\<open>AttributeError\<close>:
  \<^verbatim>\<open>load_shopify_data\<close> raises the error to its caller, \<^verbatim>\<open>load_csv_data\<close> and
  \<^verbatim>\<open>load_csv_file\<close> return the empty dictionary.
\<close>

theorem keyed_loaders_keep_last_row:
  "if no_long_row recs
   then (\<exists>cs. clean_rows (reader_rows (open_text recs)) = Inr cs
           \<and> (\<exists>d. load_shopify_data data (Inr recs) = Inr d
                  \<and> (\<forall>k. map_of d k = last_kept kept_by_handle (U ''Handle'') data cs k))
           \<and> (\<forall>k. map_of (load_csv_data (Inr recs)) k
                    = last_kept kept_by_handle (U ''Handle'') [] cs k)
           \<and> (\<forall>k. map_of (fst (load_csv_file lib cm (Inr recs) False)) k
                    = last_kept kept_by_id (U ''ID'') [] cs k))
   else load_shopify_data data (Inr recs) = Inl AttributeError
      \<and> load_csv_data (Inr recs) = []
      \<and> fst (load_csv_file lib cm (Inr recs) False) = []"
proof (cases "no_long_row recs")
  case True
  then obtain cs where cs: "clean_rows (reader_rows (open_text recs)) = Inr cs"
    using clean_rows_of_file [of recs] by auto
  have "(\<exists>d. load_shopify_data data (Inr recs) = Inr d
                  \<and> (\<forall>k. map_of d k = last_kept kept_by_handle (U ''Handle'') data cs k))
           \<and> (\<forall>k. map_of (load_csv_data (Inr recs)) k
                    = last_kept kept_by_handle (U ''Handle'') [] cs k)
           \<and> (\<forall>k. map_of (fst (load_csv_file lib cm (Inr recs) False)) k
                    = last_kept kept_by_id (U ''ID'') [] cs k)"
    using cs
    by (simp add: load_shopify_data_def load_csv_data_def load_csv_file_def
        handle_rows_loop_eq id_rows_loop_eq fold_update_lookup)
  then show ?thesis
    using True cs by auto
next
  case False
  then have "clean_rows (reader_rows (open_text recs)) = Inl AttributeError"
    using clean_rows_of_file [of recs] by auto
  then show ?thesis
    using False
    by (simp add: load_shopify_data_def load_csv_data_def load_csv_file_def
        handle_rows_loop_eq id_rows_loop_eq)
qed

theorem keyed_loaders_keep_last_row_witness:
  "map_of (load_csv_data (Inr [ [U ''Handle'', U ''Title''],
                               [U ''tacori'', U ''A''],
                               [U ''Handle'', U ''Title''],
                               [U '''', U ''X''],
                               [U ''tacori'', U ''B ''] ])) (U ''tacori'')
     = Some [(U ''Handle'', U ''tacori''), (U ''Title'', U ''B'')]
   \<and> map_of (load_csv_data (Inr [ [U ''Handle'', U ''Title''],
                               [U ''tacori'', U ''A''],
                               [U ''Handle'', U ''Title''],
                               [U '''', U ''X''],
                               [U ''tacori'', U ''B ''] ])) (U ''Handle'') = None
   \<and> load_csv_data (Inr [ [U ''Handle'', U ''Title''],
                          [U ''tacori'', U ''A''],
                          [U ''zales'', U ''Z'', U ''extra''] ]) = []"
proof -
  let ?recs = "[ [U ''Handle'', U ''Title''], [U ''tacori'', U ''A''], [U ''Handle'', U ''Title''],
                [U '''', U ''X''], [U ''tacori'', U ''B ''] ]"
  let ?cs = "[ [(U ''Handle'', U ''tacori''), (U ''Title'', U ''A'')],
              [(U ''Handle'', U ''Handle''), (U ''Title'', U ''Title'')],
              [(U ''Handle'', []), (U ''Title'', U ''X'')],
              [(U ''Handle'', U ''tacori''), (U ''Title'', U ''B'')] ]"
  let ?long = "[ [U ''Handle'', U ''Title''], [U ''tacori'', U ''A''], [U ''zales'', U ''Z'', U ''extra''] ]"
  let ?lib = "\<lparr>nfkc = (\<lambda>s. s), bracketed_host_ok = (\<lambda>h. True)\<rparr>"
  have ok: "no_long_row ?recs" and long: "\<not> no_long_row ?long"
    by (simp_all add: no_long_row_def)
  have cs: "clean_rows (reader_rows (open_text ?recs)) = Inr ?cs"
    by (simp add: eval_rows)
  from keyed_loaders_keep_last_row [of ?recs "[]" ?lib "[]"] ok cs
  have "\<forall>k. map_of (load_csv_data (Inr ?recs)) k = last_kept kept_by_handle (U ''Handle'') [] ?cs k"
    by (simp only: if_True) auto
  then have "map_of (load_csv_data (Inr ?recs)) (U ''tacori'')
               = Some [(U ''Handle'', U ''tacori''), (U ''Title'', U ''B'')]"
    and "map_of (load_csv_data (Inr ?recs)) (U ''Handle'') = None"
    by (simp_all add: last_kept_def kept_by_handle_def dict_get_def)
  moreover from keyed_loaders_keep_last_row [of ?long "[]" ?lib "[]"] long
  have "load_csv_data (Inr ?long) = []"
    by (simp only: if_False)
  ultimately show ?thesis by blast
qed

text \<open>
  C6 as the specification words it has every keyed loader skip a row whose key is the
  header label. \<^verbatim>\<open>load_csv_file\<close> keeps the repeated header row of a destination file
  under the key \<^verbatim>\<open>ID\<close>.
\<close>

theorem load_csv_file_keeps_header_row_counterexample:
  "load_csv_file \<lparr>nfkc = (\<lambda>s. s), bracketed_host_ok = (\<lambda>h. True)\<rparr> []
     (Inr [ [U ''ID'', U ''Title''], [U ''ID'', U ''Title''] ]) False
   = ([(U ''ID'', [(U ''ID'', U ''ID''), (U ''Title'', U ''Title'')])], [])"
  by (simp add: load_csv_file_def eval_rows dict_get_def)

lemma load_failure_cases:
  assumes "load_failure file = Some e"
  shows "file = Inl e \<or> (\<exists>recs. file = Inr recs \<and> recs \<noteq> []
           \<and> clean_rows (reader_rows (open_text recs)) = Inl e)"
proof (cases "file")
  case (Inl e')
  then show ?thesis using assms by (simp add: load_failure_def)
next
  case (Inr recs)
  then have "clean_rows (reader_rows (open_text recs)) = Inl e"
    using assms by (simp add: load_failure_def split: sum.splits)
  moreover from this have "recs \<noteq> []"
    by (auto simp: reader_rows_def open_text_def)
  ultimately show ?thesis
    using Inr by auto
qed

text \<open>
  C4, as the code has it. Whatever fails while a file is loaded (opening or reading it,
  or cleaning one of its rows), the loaders of \<^verbatim>\<open>script.py\<close> and
  \<^verbatim>\<open>load_shopify_data\<close> of \<^verbatim>\<open>analyze_migration_coverage.py\<close> return the failure to their
  caller, while \<^verbatim>\<open>load_csv_data\<close> of \<^verbatim>\<open>show_updated_collections.py\<close> and \<^verbatim>\<open>load_csv_file\<close>
  of \<^verbatim>\<open>validate_results.py\<close> return the empty dictionary.
\<close>

theorem load_failure_raised_or_empty:
  assumes "load_failure file = Some e"
  shows "load_plp_content lib s file = Inl e
       \<and> load_shopify_categories s file = Inl e
       \<and> load_shopify_data data file = Inl e
       \<and> load_csv_data file = []
       \<and> fst (load_csv_file lib cm file is_plp) = []"
proof -
  from load_failure_cases [OF assms]
  show ?thesis
  proof
    assume "file = Inl e"
    then show ?thesis
      by (simp add: load_plp_content_def load_shopify_categories_def load_shopify_data_def
          load_csv_data_def load_csv_file_def)
  next
    assume "\<exists>recs. file = Inr recs \<and> recs \<noteq> []
           \<and> clean_rows (reader_rows (open_text recs)) = Inl e"
    then obtain recs where fl: "file = Inr recs" and ne: "recs \<noteq> []"
      and fail: "clean_rows (reader_rows (open_text recs)) = Inl e"
      by blast
    have names: "\<exists>fieldnames. reader_fieldnames (open_text recs) = Some fieldnames"
      using ne by (cases recs) (simp_all add: reader_fieldnames_def open_text_def)
    have "fst (url_rows_loop lib (reader_rows (open_text recs)) [] cm) = Inl e"
      using fail by (rule url_rows_loop_fail)
    then have url: "fst (load_csv_file lib cm file True) = []"
      by (auto simp: load_csv_file_def fl split: prod.splits sum.splits)
    have other: "fst (load_csv_file lib cm file False) = []"
      using fail by (simp add: load_csv_file_def fl id_rows_loop_eq)
    have "fst (load_csv_file lib cm file is_plp) = []"
      using url other by (cases is_plp) simp_all
    then show ?thesis
      using fail names plp_loop_fail [OF fail, of lib "([], content_map s)"]
        categories_loop_fail [OF fail, of "(heap s, [])"]
      by (auto simp: fl load_plp_content_def load_shopify_categories_def load_shopify_data_def
          load_csv_data_def handle_rows_loop_eq)
  qed
qed

theorem load_failure_raised_or_empty_witness:
  "load_shopify_categories init_script (Inr [ [U ''ID'', U ''Title''], [U ''7'', U ''Tacori'', U ''extra''] ])
     = Inl AttributeError
   \<and> load_csv_data (Inr [ [U ''ID'', U ''Title''], [U ''7'', U ''Tacori'', U ''extra''] ]) = []"
proof -
  have "load_failure (Inr [ [U ''ID'', U ''Title''], [U ''7'', U ''Tacori'', U ''extra''] ]) = Some AttributeError"
    by (simp add: load_failure_def eval_rows)
  from load_failure_raised_or_empty [OF this, of "\<lparr>nfkc = (\<lambda>s. s), bracketed_host_ok = (\<lambda>h. True)\<rparr>"
      init_script "[]" "[]" False]
  show ?thesis by simp
qed

text \<open>
  C4 as the specification words it has every loader raise. When the file cannot be opened,
  \<^verbatim>\<open>load_csv_file\<close> and \<^verbatim>\<open>load_csv_data\<close> return an empty dictionary to their caller.
\<close>

theorem load_csv_file_swallows_failure_counterexample:
  "load_csv_file \<lparr>nfkc = (\<lambda>s. s), bracketed_host_ok = (\<lambda>h. True)\<rparr> [] (Inl IOError) False = ([], [])
   \<and> load_csv_data (Inl IOError) = []"
  by (simp add: load_csv_file_def load_csv_data_def)


section \<open>Properties of the change reporters\<close>






















section \<open>The round trip of a destination file\<close>

lemma foldl_update_fresh:
  assumes "distinct (map fst kvs)" and "fst ` set acc \<inter> fst ` set kvs = {}"
  shows "foldl (\<lambda>d (k, v). AList.update k v d) acc kvs = acc @ kvs"
  using assms
proof (induction kvs arbitrary: acc)
  case Nil
  then show ?case by simp
next
  case (Cons kv kvs)
  obtain k v where kv: "kv = (k, v)" by (cases kv)
  have fresh: "k \<notin> fst ` set acc"
    using Cons.prems(2) kv by auto
  have "fst ` set (acc @ [(k, v)]) \<inter> fst ` set kvs = {}"
    using Cons.prems kv by auto
  moreover have "distinct (map fst kvs)"
    using Cons.prems(1) by simp
  ultimately have "foldl (\<lambda>d (k, v). AList.update k v d) (acc @ [(k, v)]) kvs = (acc @ [(k, v)]) @ kvs"
    by (rule Cons.IH [rotated])
  then show ?case
    by (simp add: kv update_fresh [OF fresh])
qed

lemma dict_of_pairs_distinct: "distinct (map fst kvs) \<Longrightarrow> dict_of_pairs kvs = kvs"
  using foldl_update_fresh [of kvs "[]"] by (simp add: dict_of_pairs_def)

lemma py_strip_Nil: "py_strip [] = []"
  by (simp add: py_strip_def strip_by_def)

lemma zip_take_left: "zip (take (length ys) xs) ys = zip xs ys"
  by (induction xs ys rule: list_induct2') auto

lemma dictreader_row_short:
  assumes "distinct fieldnames" and "length r \<le> length fieldnames"
  shows "dictreader_row fieldnames r
           = zip (map Some fieldnames) (map Str r @ replicate (length fieldnames - length r) NoneCell)"
proof -
  define lr where "lr = length r"
  define given where "given = zip (map Some (take lr fieldnames)) (map Str r)"
  define padded where "padded = map (\<lambda>k. (Some k, NoneCell)) (drop lr fieldnames)"
  have fns: "fieldnames = take lr fieldnames @ drop lr fieldnames" by simp
  have dist: "distinct (take lr fieldnames @ drop lr fieldnames)"
    using assms(1) by simp
  have d1: "distinct (take lr fieldnames)" and d2: "distinct (drop lr fieldnames)"
    and disj: "set (take lr fieldnames) \<inter> set (drop lr fieldnames) = {}"
    using dist unfolding distinct_append by blast+
  have keys_given: "map fst given = map Some (take lr fieldnames)"
    using assms(2) by (simp add: given_def lr_def)
  have "zip (map Some fieldnames) (map Str r) = given"
    unfolding given_def lr_def
    using zip_take_left [of "map Str r" "map Some fieldnames"] by (simp add: take_map)
  then have d: "dict_of_pairs (zip (map Some fieldnames) (map Str r)) = given"
    using d1 keys_given by (simp add: dict_of_pairs_distinct distinct_map)
  have "foldl (\<lambda>d key. AList.update (Some key) NoneCell d) given (drop lr fieldnames)
          = foldl (\<lambda>d (k, v). AList.update k v d) given padded"
    by (simp add: padded_def foldl_map)
  also have "\<dots> = given @ padded"
  proof (rule foldl_update_fresh)
    show "distinct (map fst padded)"
      using d2 by (simp add: padded_def comp_def distinct_map)
    have "fst ` set given = Some ` set (take lr fieldnames)"
      using keys_given by (metis list.set_map)
    moreover have "fst ` set padded = Some ` set (drop lr fieldnames)"
      by (auto simp: padded_def image_iff)
    ultimately show "fst ` set given \<inter> fst ` set padded = {}"
      using disj by auto
  qed
  finally have pad: "foldl (\<lambda>d key. AList.update (Some key) NoneCell d) given (drop lr fieldnames)
          = given @ padded" .
  have "zip (map Some fieldnames) (map Str r @ replicate (length fieldnames - lr) NoneCell)
          = zip (map Some (take lr fieldnames) @ map Some (drop lr fieldnames))
                (map Str r @ replicate (length fieldnames - lr) NoneCell)"
    by (metis fns map_append)
  also have "\<dots> = given @ zip (map Some (drop lr fieldnames)) (replicate (length fieldnames - lr) NoneCell)"
    using assms(2) by (simp add: given_def lr_def)
  also have "zip (map Some (drop lr fieldnames)) (replicate (length fieldnames - lr) NoneCell) = padded"
    by (simp add: padded_def zip_replicate2 zip_map1 map_fst_zip list_eq_iff_nth_eq)
  finally have target: "zip (map Some fieldnames) (map Str r @ replicate (length fieldnames - lr) NoneCell)
          = given @ padded" .
  show ?thesis
  proof (cases "lr < length fieldnames")
    case True
    then show ?thesis
      using d pad target by (simp add: dictreader_row_def lr_def [symmetric] Let_def)
  next
    case False
    then have "lr = length fieldnames" using assms(2) by (simp add: lr_def)
    then show ?thesis
      using d target by (simp add: dictreader_row_def lr_def [symmetric] Let_def padded_def)
  qed
qed

lemma clean_row_loop_cells:
  assumes "distinct fs" and "\<forall>f\<in>set fs. clean_field_name (Some f) = f"
    and "length r + n = length fs" and "set fs \<inter> fst ` set acc = {}"
  shows "clean_row_loop (zip (map Some fs) (map Str r @ replicate n NoneCell)) acc
           = Inr (acc @ zip fs (map py_strip r @ replicate n []))"
  using assms
proof (induction fs arbitrary: r n acc)
  case Nil
  then show ?case by simp
next
  case (Cons f fs)
  have cf: "clean_field_name (Some f) = f" and fresh: "f \<notin> fst ` set acc"
    using Cons.prems by auto
  have rest: "distinct fs" "\<forall>f\<in>set fs. clean_field_name (Some f) = f"
    using Cons.prems by simp_all
  show ?case
  proof (cases r)
    case Nil
    then obtain n' where n: "n = Suc n'" and len: "length ([]::ustring list) + n' = length fs"
      using Cons.prems(3) by (cases n) auto
    have disj: "set fs \<inter> fst ` set (acc @ [(f, [])]) = {}"
      using Cons.prems(1,4) by auto
    have "clean_row_loop (zip (map Some fs) (map Str [] @ replicate n' NoneCell)) (acc @ [(f, [])])
            = Inr ((acc @ [(f, [])]) @ zip fs (map py_strip [] @ replicate n' []))"
      using rest len disj by (rule Cons.IH)
    then show ?thesis
      using Nil n by (simp add: cf update_fresh [OF fresh] del: clean_field_name.simps)
  next
    case (Cons x r')
    have len: "length r' + n = length fs"
      using Cons.prems(3) Cons by simp
    have disj: "set fs \<inter> fst ` set (acc @ [(f, py_strip x)]) = {}"
      using Cons.prems(1,4) by auto
    have "clean_row_loop (zip (map Some fs) (map Str r' @ replicate n NoneCell)) (acc @ [(f, py_strip x)])
            = Inr ((acc @ [(f, py_strip x)]) @ zip fs (map py_strip r' @ replicate n []))"
      using rest len disj by (rule Cons.IH)
    moreover have "clean_value (Str x) = Inr (py_strip x)"
      by (simp add: py_strip_Nil)
    ultimately show ?thesis
      using Cons by (simp add: cf update_fresh [OF fresh] del: clean_field_name.simps clean_value.simps)
  qed
qed

lemma clean_row_short:
  assumes "distinct fieldnames" and "\<forall>f\<in>set fieldnames. clean_field_name (Some f) = f"
    and "length r \<le> length fieldnames"
  shows "clean_row (dictreader_row fieldnames r) = Inr (zip fieldnames (padded_row fieldnames r))"
proof -
  have "length r + (length fieldnames - length r) = length fieldnames"
    using assms(3) by simp
  then have "clean_row_loop (zip (map Some fieldnames)
               (map Str r @ replicate (length fieldnames - length r) NoneCell)) []
           = Inr ([] @ zip fieldnames (map py_strip r @ replicate (length fieldnames - length r) []))"
    using assms(1,2) by (intro clean_row_loop_cells) simp_all
  then show ?thesis
    by (simp add: clean_row_def padded_row_def dictreader_row_short [OF assms(1,3)])
qed

lemma clean_rows_short:
  assumes "distinct fieldnames" and "\<forall>f\<in>set fieldnames. clean_field_name (Some f) = f"
    and "\<forall>r\<in>set rows. length r \<le> length fieldnames"
  shows "clean_rows (map (dictreader_row fieldnames) rows)
           = Inr (map (\<lambda>r. zip fieldnames (padded_row fieldnames r)) rows)"
  using assms(3)
  by (induction rows) (simp_all add: clean_row_short [OF assms(1,2)])

lemma categories_loop_ok:
  "clean_rows rs = Inr cs \<Longrightarrow>
     categories_loop rs (h, cats) = Inr (h @ cs, cats @ [length h ..< length h + length cs])"
proof (induction rs arbitrary: h cats cs)
  case Nil
  then show ?case by simp
next
  case (Cons r rs)
  from Cons.prems obtain c cs' where c: "clean_row r = Inr c" and cs': "clean_rows rs = Inr cs'"
    and cs: "cs = c # cs'"
    by (auto split: sum.splits)
  have "categories_loop rs (h @ [c], cats @ [length h])
          = Inr ((h @ [c]) @ cs', (cats @ [length h]) @ [length (h @ [c]) ..< length (h @ [c]) + length cs'])"
    using cs' by (rule Cons.IH)
  then have ih: "categories_loop rs (h @ [c], cats @ [length h])
          = Inr (h @ c # cs', cats @ length h # [length (h @ [c]) ..< length (h @ [c]) + length cs'])"
    by simp
  have "[length h ..< length h + length (c # cs')]
          = length h # [Suc (length h) ..< length h + length (c # cs')]"
    by (rule upt_conv_Cons) simp
  moreover have "length (h @ [c]) = Suc (length h)"
    and "length (h @ [c]) + length cs' = length h + length (c # cs')"
    by simp_all
  ultimately have addrs: "[length h ..< length h + length (c # cs')]
          = length h # [length (h @ [c]) ..< length (h @ [c]) + length cs']"
    by (simp only:)
  have "categories_loop (r # rs) (h, cats) = categories_loop rs (h @ [c], cats @ [length h])"
    using c by (simp add: alloc_def)
  then show ?case
    unfolding cs addrs ih .
qed

lemma merged_empty: "merged [] r = r"
  by (simp add: merged_def)

lemma dict_to_list_zip:
  assumes "distinct fs" and "length vs = length fs"
  shows "dict_to_list fs (zip fs vs) = Inr vs"
proof -
  have "map (\<lambda>key. dict_get (zip fs vs) key []) fs = vs"
  proof (rule nth_equalityI)
    show "length (map (\<lambda>key. dict_get (zip fs vs) key []) fs) = length vs"
      using assms(2) by simp
  next
    fix i assume "i < length (map (\<lambda>key. dict_get (zip fs vs) key []) fs)"
    then have i: "i < length fs" by simp
    then have "map_of (zip fs vs) (fs ! i) = Some (vs ! i)"
      using assms by (intro map_of_zip_nth) simp_all
    then show "map (\<lambda>key. dict_get (zip fs vs) key []) fs ! i = vs ! i"
      using i by (simp add: dict_get_def)
  qed
  moreover have "\<not> list_ex (\<lambda>k. k \<notin> set fs) (map fst (zip fs vs))"
    using assms(2) by (simp add: list_ex_iff)
  ultimately show ?thesis
    by (simp add: dict_to_list_def)
qed

lemma writerows_zip:
  assumes "distinct fs" and "\<forall>vs\<in>set vss. length vs = length fs"
  shows "writerows fs (map (zip fs) vss) = Inr vss"
  using assms(2)
  by (induction vss) (simp_all add: dict_to_list_zip [OF assms(1)])

lemma length_written_row:
  "length r \<le> length fieldnames \<Longrightarrow> length (written_row fieldnames r) = length fieldnames"
  by (simp add: written_row_def padded_row_def)

lemma load_shopify_categories_ok:
  assumes "distinct fieldnames"
    and "\<forall>f\<in>set fieldnames. universal_newlines f = f \<and> clean_field_name (Some f) = f"
    and "\<forall>r\<in>set rest. length r \<le> length fieldnames"
  shows "load_shopify_categories s (Inr (fieldnames # rest)) =
     Inr (s\<lparr>heap := heap s @ map (\<lambda>r. zip fieldnames (written_row fieldnames r)) (filter (\<lambda>r. r \<noteq> []) rest),
            shopify_categories := [length (heap s) ..< length (heap s) + length (filter (\<lambda>r. r \<noteq> []) rest)],
            stats := (stats s)\<lparr>shopify_categories_loaded := length (filter (\<lambda>r. r \<noteq> []) rest)\<rparr>\<rparr>)"
proof -
  define rows where "rows = filter (\<lambda>r. r \<noteq> []) rest"
  define cs where "cs = map (\<lambda>r. zip fieldnames (written_row fieldnames r)) rows"
  have names: "map universal_newlines fieldnames = fieldnames"
    using assms(2) by (simp add: map_idI)
  have clean: "\<forall>f\<in>set fieldnames. clean_field_name (Some f) = f"
    using assms(2) by blast
  have read: "filter (\<lambda>r. r \<noteq> []) (map (map universal_newlines) rest)
                = map (map universal_newlines) rows"
    by (simp add: rows_def filter_map comp_def)
  have "\<forall>r\<in>set (map (map universal_newlines) rows). length r \<le> length fieldnames"
    using assms(3) by (simp add: rows_def)
  then have "clean_rows (map (dictreader_row fieldnames) (map (map universal_newlines) rows))
               = Inr (map (\<lambda>r. zip fieldnames (padded_row fieldnames r)) (map (map universal_newlines) rows))"
    by (rule clean_rows_short [OF assms(1) clean])
  also have "map (\<lambda>r. zip fieldnames (padded_row fieldnames r)) (map (map universal_newlines) rows) = cs"
    by (simp add: cs_def written_row_def comp_def)
  finally have cleaned: "clean_rows (reader_rows (open_text (fieldnames # rest))) = Inr cs"
    by (simp add: reader_rows_def open_text_def names read)
  then have "categories_loop (reader_rows (open_text (fieldnames # rest))) (heap s, [])
               = Inr (heap s @ cs, [] @ [length (heap s) ..< length (heap s) + length cs])"
    by (rule categories_loop_ok)
  moreover have "reader_fieldnames (open_text (fieldnames # rest)) = Some fieldnames"
    by (simp add: reader_fieldnames_def open_text_def names)
  ultimately show ?thesis
    unfolding load_shopify_categories_def
    by (simp add: rows_def [symmetric]) (simp add: cs_def)
qed

lemma save_after_update:
  assumes wf: "\<forall>a\<in>set (shopify_categories s). a < length (heap s)"
    and empty: "content_map s = []"
    and rows: "map (\<lambda>a. heap s ! a) (shopify_categories s) = map (zip fieldnames) vss"
    and ne: "vss \<noteq> []"
    and dist: "distinct fieldnames"
    and len: "\<forall>vs\<in>set vss. length vs = length fieldnames"
  shows "save_updated_categories (update_shopify_categories s) None = Inr (Some (fieldnames # vss))"
proof -
  define s' where "s' = update_shopify_categories s"
  define m where "m = length (shopify_categories s)"
  have m: "m = length vss"
    using arg_cong [OF rows, of length] by (simp add: m_def)
  then have mpos: "0 < m" using ne by simp
  have upd: "updated_categories s' = [length (heap s) ..< length (heap s) + m]"
    unfolding s'_def m_def by (rule update_shopify_categories_store(1) [OF wf])
  have at: "heap s' ! (length (heap s) + i) = zip fieldnames (vss ! i)" if "i < m" for i
  proof -
    have "heap s' ! (length (heap s) + i) = heap s ! (shopify_categories s ! i)"
      using update_shopify_categories_store(4) [OF wf, of i] that
      by (simp add: s'_def m_def empty merged_empty)
    also have "\<dots> = map (\<lambda>a. heap s ! a) (shopify_categories s) ! i"
      using that by (simp add: m_def)
    also have "\<dots> = zip fieldnames (vss ! i)"
      unfolding rows using that m by simp
    finally show ?thesis .
  qed
  have recs: "map (\<lambda>a. heap s' ! a) (updated_categories s') = map (zip fieldnames) vss"
  proof (rule nth_equalityI)
    show "length (map (\<lambda>a. heap s' ! a) (updated_categories s')) = length (map (zip fieldnames) vss)"
      by (simp add: upd m)
  next
    fix i assume "i < length (map (\<lambda>a. heap s' ! a) (updated_categories s'))"
    then have i: "i < m" by (simp add: upd)
    then show "map (\<lambda>a. heap s' ! a) (updated_categories s') ! i = map (zip fieldnames) vss ! i"
      using at [OF i] m by (simp add: upd)
  qed
  have nonempty: "updated_categories s' \<noteq> []"
    using mpos by (simp add: upd)
  have "hd (updated_categories s') = length (heap s) + 0"
    using mpos by (simp add: upd)
  then have "heap s' ! hd (updated_categories s') = zip fieldnames (vss ! 0)"
    using at [OF mpos] by simp
  moreover have "length (vss ! 0) = length fieldnames"
    using len ne by (simp add: hd_conv_nth [symmetric])
  ultimately have keys: "map fst (heap s' ! hd (updated_categories s')) = fieldnames"
    by simp
  have header: "dict_of_pairs (zip fieldnames fieldnames) = zip fieldnames fieldnames"
    using dist by (intro dict_of_pairs_distinct) simp
  have "writerows fieldnames (map (zip fieldnames) (fieldnames # vss)) = Inr (fieldnames # vss)"
    using len by (intro writerows_zip [OF dist]) simp
  then have "writerows fieldnames (dict_of_pairs (zip fieldnames fieldnames)
               # map (\<lambda>a. heap s' ! a) (updated_categories s')) = Inr (fieldnames # vss)"
    by (simp only: header recs list.map)
  then show ?thesis
    using nonempty unfolding s'_def [symmetric]
    by (simp add: save_updated_categories_def keys Let_def)
qed

text \<open>
  C9, as the code has it. Take a destination file whose field names are pairwise distinct,
  hold no carriage return and are left as they are by the cleaning of field names, none
  of whose rows has more cells than there are field names, and which has at least one row
  that is not blank. Loading it, merging against an empty content map and saving writes
  the same field names in the same order and, for every row that is not blank, in the same
  order, the cells of the row as the text layer hands them over (every carriage return
  followed by a line feed, and every other carriage return, replaced by one line feed) and
  then trimmed of white space, with an empty cell for every field name that a short row
  lacks.
\<close>

theorem round_trip_reproduces_clean_file:
  assumes "distinct fieldnames"
    and "\<forall>f\<in>set fieldnames. universal_newlines f = f \<and> clean_field_name (Some f) = f"
    and "\<forall>r\<in>set rest. length r \<le> length fieldnames"
    and "filter (\<lambda>r. r \<noteq> []) rest \<noteq> []"
    and "content_map s = []"
  shows "round_trip s (fieldnames # rest)
           = Inr (Some (fieldnames # map (written_row fieldnames) (filter (\<lambda>r. r \<noteq> []) rest)))"
proof -
  define rows where "rows = filter (\<lambda>r. r \<noteq> []) rest"
  define loaded where "loaded =
    s\<lparr>heap := heap s @ map (\<lambda>r. zip fieldnames (written_row fieldnames r)) rows,
      shopify_categories := [length (heap s) ..< length (heap s) + length rows],
      stats := (stats s)\<lparr>shopify_categories_loaded := length rows\<rparr>\<rparr>"
  have load: "load_shopify_categories s (Inr (fieldnames # rest)) = Inr loaded"
    unfolding loaded_def rows_def by (rule load_shopify_categories_ok [OF assms(1-3)])
  have wf: "\<forall>a\<in>set (shopify_categories loaded). a < length (heap loaded)"
    by (simp add: loaded_def)
  have empty: "content_map loaded = []"
    using assms(5) by (simp add: loaded_def)
  have "map (\<lambda>a. heap loaded ! a) (shopify_categories loaded)
          = map (\<lambda>r. zip fieldnames (written_row fieldnames r)) rows"
    by (rule nth_equalityI) (simp_all add: loaded_def nth_append)
  then have recs: "map (\<lambda>a. heap loaded ! a) (shopify_categories loaded)
          = map (zip fieldnames) (map (written_row fieldnames) rows)"
    by (simp add: comp_def)
  have ne: "map (written_row fieldnames) rows \<noteq> []"
    using assms(4) by (simp add: rows_def)
  have len: "\<forall>vs\<in>set (map (written_row fieldnames) rows). length vs = length fieldnames"
    using assms(3) by (auto simp: rows_def length_written_row)
  have "save_updated_categories (update_shopify_categories loaded) None
          = Inr (Some (fieldnames # map (written_row fieldnames) rows))"
    using wf empty recs ne assms(1) len by (rule save_after_update)
  then show ?thesis
    by (simp add: round_trip_def load rows_def)
qed

theorem round_trip_reproduces_clean_file_witness:
  "round_trip init_script
     [ [U ''ID'', U ''Handle'', U ''Title''],
      [U ''7'', U ''tacori'', U '' Tacori ''],
      [],
      [U ''8'', U ''a'' @ [0x0D, 0x0A] @ U ''b'' @ [0x0D] @ U ''c''] ]
   = Inr (Some [ [U ''ID'', U ''Handle'', U ''Title''],
                [U ''7'', U ''tacori'', U ''Tacori''],
                [U ''8'', U ''a'' @ [0x0A] @ U ''b'' @ [0x0A] @ U ''c'', [] ] ])"
proof -
  have clean: "\<forall>f\<in>set [U ''ID'', U ''Handle'', U ''Title''].
                 universal_newlines f = f \<and> clean_field_name (Some f) = f"
    by (simp add: py_replace1_def py_strip_def py_strip_chars_def strip_by_def py_isspace_def)
  have "round_trip init_script ([U ''ID'', U ''Handle'', U ''Title'']
          # [ [U ''7'', U ''tacori'', U '' Tacori ''], [],
              [U ''8'', U ''a'' @ [0x0D, 0x0A] @ U ''b'' @ [0x0D] @ U ''c''] ])
        = Inr (Some ([U ''ID'', U ''Handle'', U ''Title'']
            # map (written_row [U ''ID'', U ''Handle'', U ''Title''])
                (filter (\<lambda>r. r \<noteq> []) [ [U ''7'', U ''tacori'', U '' Tacori ''], [],
                   [U ''8'', U ''a'' @ [0x0D, 0x0A] @ U ''b'' @ [0x0D] @ U ''c''] ])))"
    using clean by (intro round_trip_reproduces_clean_file) (simp_all add: init_script_def)
  then show ?thesis
    by (simp add: written_row_def padded_row_def py_strip_def strip_by_def py_isspace_def)
qed

text \<open>
  C9 as the specification words it promises the original column set for every file. A
  file whose first field name starts with a byte-order mark comes back with the field
  name cleaned, and a file with a header and no row comes back as no file at all.
\<close>

theorem round_trip_changes_header_counterexample:
  "round_trip init_script [ [BOM # U ''ID''], [U ''7''] ] = Inr (Some [ [U ''ID''], [U ''7''] ])
   \<and> round_trip init_script [ [U ''ID''] ] = Inr None"
  by (simp add: round_trip_def load_shopify_categories_def reader_fieldnames_def eval_rows
      alloc_def init_script_def update_shopify_categories_def save_updated_categories_def
      dict_to_list_def dict_get_def)

end
